theory Spec2Isabelle
  imports Main "HOL-Library.Multiset"
begin

section \<open>Data model of the order controller\<close>

text \<open>
  The controller keeps three slices of \<open>*Order\<close> and one slice of \<open>*Bot\<close>. Orders and
  bots are heap objects shared through pointers (an order is reachable from
  \<open>oc.orders\<close> and from the queue, a bot slot or the completed list at the same time, and
  is mutated through any of them), so the model has an explicit store: a pointer is an
  index into the list of allocated objects, allocation appends to that list, and nothing is
  ever freed. Go's \<open>nil\<close> is \<open>None\<close>.

  \<open>time.Time\<close> values are integers (nanoseconds); the zero value is \<open>0\<close>. Every
  operation takes the value its calls of \<open>time.Now()\<close> return as the argument \<open>now\<close>.
\<close>

datatype OrderType = OrderTypeNormal | OrderTypeVIP

datatype OrderStatus = OrderStatusPending | OrderStatusProcessing | OrderStatusComplete

type_synonym time = int

type_synonym order_ptr = nat

type_synonym bot_ptr = nat

record Order =
  ID :: int
  Type :: OrderType
  Status :: OrderStatus
  BotID :: int
  Created :: time
  Started :: time
  Completed :: time

datatype BotStatus = BotStatusIdle | BotStatusProcessing

text \<open>
  \<open>stopChan\<close> is a channel of capacity 1 (\<open>make(chan bool, 1)\<close>): the list holds the
  values buffered in it. The mutexes are not fields of the model: every exported call and
  every iteration of a worker goroutine is one atomic step.
\<close>

record Bot =
  Bot_ID :: int
  Bot_Status :: BotStatus
  Bot_Order :: "order_ptr option"
  stopChan :: "bool list"

text \<open>
  The fields of \<open>OrderController\<close>, together with the two stores and with the
  goroutines started by \<open>go oc.processOrder(bot)\<close> that have not returned yet: each is its
  argument \<open>bot\<close> and its local \<open>startTime\<close>.
\<close>

record OrderController =
  order_heap :: "Order list"
  bot_heap :: "Bot list"
  orders :: "order_ptr list"
  pendingOrders :: "order_ptr list"
  completedOrders :: "order_ptr list"
  bots :: "bot_ptr list"
  nextOrderID :: int
  nextBotID :: int
  goroutines :: "(bot_ptr \<times> time) list"

text \<open>\<open>int64\<close> arithmetic wraps around (two's complement).\<close>

definition wrap64 :: "int \<Rightarrow> int" where
  "wrap64 x = (x + 2 ^ 63) mod 2 ^ 64 - 2 ^ 63"

text \<open>\<open>atomic.AddInt64(&v, delta)\<close>: the new value of the counter, which is also returned.\<close>

definition atomic_AddInt64 :: "int \<Rightarrow> int \<Rightarrow> int" where
  "atomic_AddInt64 v delta = wrap64 (v + delta)"

definition NewOrderController :: OrderController where
  "NewOrderController =
     \<lparr>order_heap = [], bot_heap = [], orders = [], pendingOrders = [],
      completedOrders = [], bots = [], nextOrderID = 1001, nextBotID = 1,
      goroutines = []\<rparr>"

section \<open>The pending queue\<close>

text \<open>
  The loop of \<open>insertVIPOrder\<close>: \<open>i\<close> is the index of the entry looked at,
  \<open>insertIndex\<close> the value of the variable so far.
\<close>

fun insertIndex_loop :: "Order list \<Rightarrow> order_ptr list \<Rightarrow> nat \<Rightarrow> nat \<Rightarrow> nat" where
  "insertIndex_loop h [] i insertIndex = insertIndex"
| "insertIndex_loop h (pendingOrder # rest) i insertIndex =
     insertIndex_loop h rest (i + 1)
       (if Type (h ! pendingOrder) = OrderTypeVIP then i + 1 else insertIndex)"

definition insertVIPOrder :: "order_ptr \<Rightarrow> OrderController \<Rightarrow> OrderController" where
  "insertVIPOrder order oc =
     (let insertIndex = insertIndex_loop (order_heap oc) (pendingOrders oc) 0 0
      in oc\<lparr>pendingOrders :=
              take insertIndex (pendingOrders oc) @ [order] @
              drop insertIndex (pendingOrders oc)\<rparr>)"

text \<open>
  The earlier revision of \<open>CreateVIPOrder\<close> and \<open>RemoveBot\<close> inserts in place:
  \<open>append\<close> at the end when the index is the length, and otherwise
  \<open>append(q[:insertIndex], append([]*Order{order}, q[insertIndex:]...)...)\<close>, whose inner
  \<open>append\<close> copies the tail before the outer one writes.
\<close>

definition insertVIPOrder_inline :: "order_ptr \<Rightarrow> OrderController \<Rightarrow> OrderController" where
  "insertVIPOrder_inline order oc =
     (let insertIndex = insertIndex_loop (order_heap oc) (pendingOrders oc) 0 0
      in if insertIndex \<ge> length (pendingOrders oc)
         then oc\<lparr>pendingOrders := pendingOrders oc @ [order]\<rparr>
         else oc\<lparr>pendingOrders :=
                   take insertIndex (pendingOrders oc) @
                   ([order] @ drop insertIndex (pendingOrders oc))\<rparr>)"

definition insertOrderToPending :: "order_ptr \<Rightarrow> OrderController \<Rightarrow> OrderController" where
  "insertOrderToPending order oc =
     (case Type (order_heap oc ! order) of
        OrderTypeVIP \<Rightarrow> insertVIPOrder order oc
      | OrderTypeNormal \<Rightarrow> oc\<lparr>pendingOrders := pendingOrders oc @ [order]\<rparr>)"

section \<open>The assignment pass\<close>

text \<open>
  The body of the \<open>range oc.bots\<close> loop for one bot: an idle bot takes the head of the
  queue when there is one, and a goroutine is started for it. \<open>startTime\<close> of that
  goroutine is the clock value it reads when it starts.
\<close>

definition assignOrderToBot :: "time \<Rightarrow> bot_ptr \<Rightarrow> OrderController \<Rightarrow> OrderController" where
  "assignOrderToBot now b oc =
     (if Bot_Status (bot_heap oc ! b) = BotStatusIdle \<and> length (pendingOrders oc) > 0
      then
        (let order = pendingOrders oc ! 0;
             bv = (bot_heap oc ! b)\<lparr>Bot_Order := Some order, Bot_Status := BotStatusProcessing\<rparr>;
             ov = (order_heap oc ! order)\<lparr>Status := OrderStatusProcessing,
                                          BotID := Bot_ID bv, Started := now\<rparr>
         in oc\<lparr>pendingOrders := drop 1 (pendingOrders oc),
               bot_heap := (bot_heap oc)[b := bv],
               order_heap := (order_heap oc)[order := ov],
               goroutines := goroutines oc @ [(b, now)]\<rparr>)
      else oc)"

fun assignLoop :: "time \<Rightarrow> bot_ptr list \<Rightarrow> OrderController \<Rightarrow> OrderController" where
  "assignLoop now [] oc = oc"
| "assignLoop now (b # rest) oc = assignLoop now rest (assignOrderToBot now b oc)"

definition assignOrdersToBots :: "time \<Rightarrow> OrderController \<Rightarrow> OrderController" where
  "assignOrdersToBots now oc = assignLoop now (bots oc) oc"

section \<open>Creating orders and bots\<close>

definition CreateNormalOrder :: "time \<Rightarrow> OrderController \<Rightarrow> OrderController" where
  "CreateNormalOrder now oc =
     (let counter = atomic_AddInt64 (nextOrderID oc) 1;
          orderID = wrap64 (counter - 1);
          order = length (order_heap oc);
          oc1 = oc\<lparr>nextOrderID := counter,
                   order_heap := order_heap oc @
                     [\<lparr>ID = orderID, Type = OrderTypeNormal, Status = OrderStatusPending,
                       BotID = 0, Created = now, Started = 0, Completed = 0\<rparr>]\<rparr>;
          oc2 = oc1\<lparr>orders := orders oc1 @ [order],
                     pendingOrders := pendingOrders oc1 @ [order]\<rparr>
      in assignOrdersToBots now oc2)"

definition CreateVIPOrder :: "time \<Rightarrow> OrderController \<Rightarrow> OrderController" where
  "CreateVIPOrder now oc =
     (let counter = atomic_AddInt64 (nextOrderID oc) 1;
          orderID = wrap64 (counter - 1);
          order = length (order_heap oc);
          oc1 = oc\<lparr>nextOrderID := counter,
                   order_heap := order_heap oc @
                     [\<lparr>ID = orderID, Type = OrderTypeVIP, Status = OrderStatusPending,
                       BotID = 0, Created = now, Started = 0, Completed = 0\<rparr>]\<rparr>;
          oc2 = insertVIPOrder order (oc1\<lparr>orders := orders oc1 @ [order]\<rparr>)
      in assignOrdersToBots now oc2)"

definition AddBot :: "time \<Rightarrow> OrderController \<Rightarrow> OrderController" where
  "AddBot now oc =
     (let counter = atomic_AddInt64 (nextBotID oc) 1;
          botID = wrap64 (counter - 1);
          b = length (bot_heap oc);
          oc1 = oc\<lparr>nextBotID := counter,
                   bot_heap := bot_heap oc @
                     [\<lparr>Bot_ID = botID, Bot_Status = BotStatusIdle, Bot_Order = None,
                       stopChan = []\<rparr>]\<rparr>;
          oc2 = oc1\<lparr>bots := bots oc1 @ [b]\<rparr>
      in assignOrdersToBots now oc2)"

section \<open>Removing a bot\<close>

definition removeBotFromList :: "OrderController \<Rightarrow> bot_ptr option \<times> OrderController" where
  "removeBotFromList oc =
     (if length (bots oc) = 0 then (None, oc)
      else
        (let botIndex = length (bots oc) - 1;
             b = bots oc ! botIndex
         in (Some b, oc\<lparr>bots := take botIndex (bots oc)\<rparr>)))"

text \<open>
  A send on a buffered channel returns at once when the buffer has room and waits for a
  receiver otherwise. \<open>None\<close> is the waiting sender: the step it belongs to does not
  finish from this state.
\<close>

definition chan_send :: "nat \<Rightarrow> 'a list \<Rightarrow> 'a \<Rightarrow> 'a list option" where
  "chan_send capacity buf v = (if length buf < capacity then Some (buf @ [v]) else None)"

definition stopBotProcessing ::
  "bot_ptr \<Rightarrow> OrderController \<Rightarrow> ((order_ptr option \<times> bool) \<times> OrderController) option" where
  "stopBotProcessing b oc =
     (let bv = bot_heap oc ! b;
          isProcessing = (Bot_Status bv = BotStatusProcessing \<and> Bot_Order bv \<noteq> None)
      in if \<not> isProcessing then Some ((None, False), oc)
         else
           (case chan_send 1 (stopChan bv) True of
              None \<Rightarrow> None
            | Some ch \<Rightarrow>
                (let order = the (Bot_Order bv);
                     ov = (order_heap oc ! order)\<lparr>Status := OrderStatusPending, BotID := 0\<rparr>
                 in Some ((Some order, True),
                          oc\<lparr>bot_heap := (bot_heap oc)[b := bv\<lparr>stopChan := ch\<rparr>],
                             order_heap := (order_heap oc)[order := ov]\<rparr>))))"

definition handleIdleBotRemoval :: "time \<Rightarrow> bot_ptr \<Rightarrow> OrderController \<Rightarrow> OrderController" where
  "handleIdleBotRemoval now b oc = assignOrdersToBots now oc"

definition handleProcessingBotRemoval ::
  "time \<Rightarrow> bot_ptr \<Rightarrow> order_ptr \<Rightarrow> OrderController \<Rightarrow> OrderController" where
  "handleProcessingBotRemoval now b order oc =
     assignOrdersToBots now (insertOrderToPending order oc)"

definition RemoveBot :: "time \<Rightarrow> OrderController \<Rightarrow> OrderController option" where
  "RemoveBot now oc =
     (case removeBotFromList oc of
        (None, oc1) \<Rightarrow> Some oc1
      | (Some b, oc1) \<Rightarrow>
          (case stopBotProcessing b oc1 of
             None \<Rightarrow> None
           | Some ((order, isProcessing), oc2) \<Rightarrow>
               if \<not> isProcessing then Some (handleIdleBotRemoval now b oc2)
               else Some (handleProcessingBotRemoval now b (the order) oc2)))"

section \<open>Processing an order\<close>

definition completeOrderProcessing ::
  "time \<Rightarrow> bot_ptr \<Rightarrow> OrderController \<Rightarrow> order_ptr option \<times> OrderController" where
  "completeOrderProcessing now b oc =
     (let bv = bot_heap oc ! b
      in case Bot_Order bv of
           None \<Rightarrow> (None, oc)
         | Some order \<Rightarrow>
             (let ov = (order_heap oc ! order)\<lparr>Status := OrderStatusComplete, Completed := now\<rparr>
              in (Some order,
                  oc\<lparr>order_heap := (order_heap oc)[order := ov],
                     bot_heap := (bot_heap oc)[b := bv\<lparr>Bot_Order := None,
                                                      Bot_Status := BotStatusIdle\<rparr>]\<rparr>)))"

definition finalizeOrderCompletion ::
  "time \<Rightarrow> bot_ptr \<Rightarrow> order_ptr \<Rightarrow> OrderController \<Rightarrow> OrderController" where
  "finalizeOrderCompletion now b order oc =
     assignOrdersToBots now (oc\<lparr>completedOrders := completedOrders oc @ [order]\<rparr>)"

text \<open>\<open>10 * time.Second\<close>, in nanoseconds.\<close>

definition duration :: int where
  "duration = 10 * 1000000000"

text \<open>
  One iteration of the \<open>for { select { ... } }\<close> loop of \<open>processOrder\<close>, for the case
  of the \<open>select\<close> that is taken. Receiving from \<open>bot.stopChan\<close> needs a buffered value
  (\<open>None\<close> when there is none: the case cannot be taken); a tick of the ticker can be
  taken at any time. When both can be taken Go chooses one of them at random, so both
  are steps of the goroutine. The result says whether the goroutine has returned.
\<close>

datatype select_case = recv_stopChan | recv_ticker

definition processOrder_iteration ::
  "time \<Rightarrow> select_case \<Rightarrow> bot_ptr \<times> time \<Rightarrow> OrderController \<Rightarrow> (bool \<times> OrderController) option" where
  "processOrder_iteration now c g oc =
     (let b = fst g; startTime = snd g
      in case c of
           recv_stopChan \<Rightarrow>
             (case stopChan (bot_heap oc ! b) of
                [] \<Rightarrow> None
              | v # buf \<Rightarrow>
                  Some (True, oc\<lparr>bot_heap := (bot_heap oc)[b := (bot_heap oc ! b)\<lparr>stopChan := buf\<rparr>]\<rparr>))
         | recv_ticker \<Rightarrow>
             if now - startTime \<ge> duration
             then
               (case completeOrderProcessing now b oc of
                  (None, oc1) \<Rightarrow> Some (True, oc1)
                | (Some order, oc1) \<Rightarrow> Some (True, finalizeOrderCompletion now b order oc1))
             else Some (False, oc))"

text \<open>The goroutine at index \<open>i\<close> runs one iteration; it leaves the list when it returns.\<close>

definition goroutine_step ::
  "time \<Rightarrow> nat \<Rightarrow> select_case \<Rightarrow> OrderController \<Rightarrow> OrderController option" where
  "goroutine_step now i c oc =
     (if i < length (goroutines oc)
      then
        (case processOrder_iteration now c (goroutines oc ! i) oc of
           None \<Rightarrow> None
         | Some (returned, oc1) \<Rightarrow>
             Some (if returned
                   then oc1\<lparr>goroutines := take i (goroutines oc1) @ drop (i + 1) (goroutines oc1)\<rparr>
                   else oc1))
      else None)"

definition Wait :: "time \<Rightarrow> OrderController \<Rightarrow> OrderController" where
  "Wait now oc = assignOrdersToBots now oc"

section \<open>Runs of the controller\<close>

text \<open>
  An event is one exported call, or one iteration of one goroutine; each carries the
  clock value it reads. A run applies events in order and is \<open>None\<close> when an event cannot
  be taken or does not finish.
\<close>

datatype event =
    EvCreateNormalOrder time
  | EvCreateVIPOrder time
  | EvAddBot time
  | EvRemoveBot time
  | EvWait time
  | EvGoroutine time nat select_case

fun step :: "event \<Rightarrow> OrderController \<Rightarrow> OrderController option" where
  "step (EvCreateNormalOrder now) oc = Some (CreateNormalOrder now oc)"
| "step (EvCreateVIPOrder now) oc = Some (CreateVIPOrder now oc)"
| "step (EvAddBot now) oc = Some (AddBot now oc)"
| "step (EvRemoveBot now) oc = RemoveBot now oc"
| "step (EvWait now) oc = Some (Wait now oc)"
| "step (EvGoroutine now i c) oc = goroutine_step now i c oc"

fun run :: "event list \<Rightarrow> OrderController \<Rightarrow> OrderController option" where
  "run [] oc = Some oc"
| "run (e # es) oc = (case step e oc of None \<Rightarrow> None | Some oc1 \<Rightarrow> run es oc1)"

text \<open>
  The race of the completion against the removal: the goroutine takes the tick that ends
  the processing time while a cancellation signal waits in its \<open>stopChan\<close>.
\<close>

definition race :: "event \<Rightarrow> OrderController \<Rightarrow> bool" where
  "race e oc =
     (case e of
        EvGoroutine now i c \<Rightarrow>
          c = recv_ticker \<and> i < length (goroutines oc) \<and>
          now - snd (goroutines oc ! i) \<ge> duration \<and>
          stopChan (bot_heap oc ! fst (goroutines oc ! i)) \<noteq> []
      | _ \<Rightarrow> False)"

text \<open>A run in which that race never happens.\<close>

fun run_no_race :: "event list \<Rightarrow> OrderController \<Rightarrow> OrderController option" where
  "run_no_race [] oc = Some oc"
| "run_no_race (e # es) oc =
     (if race e oc then None
      else case step e oc of None \<Rightarrow> None | Some oc1 \<Rightarrow> run_no_race es oc1)"

section \<open>Properties of states\<close>

text \<open>The entries of the pending queue of one class, in queue order.\<close>

definition class_queue :: "OrderType \<Rightarrow> OrderController \<Rightarrow> order_ptr list" where
  "class_queue t oc = filter (\<lambda>p. Type (order_heap oc ! p) = t) (pendingOrders oc)"

text \<open>The queue is its VIP entries followed by its Normal entries.\<close>

definition partitioned :: "OrderController \<Rightarrow> bool" where
  "partitioned oc =
     (pendingOrders oc = class_queue OrderTypeVIP oc @ class_queue OrderTypeNormal oc)"

text \<open>
  Pointers are never dangling in Go. A state of the model is well formed when every
  pointer it holds is an allocated object.
\<close>

definition valid_ptrs :: "OrderController \<Rightarrow> bool" where
  "valid_ptrs oc =
     (list_all (\<lambda>p. p < length (order_heap oc)) (pendingOrders oc) \<and>
      list_all (\<lambda>b. b < length (bot_heap oc)) (bots oc) \<and>
      list_all (\<lambda>g. fst g < length (bot_heap oc)) (goroutines oc) \<and>
      list_all (\<lambda>bv. case Bot_Order bv of None \<Rightarrow> True | Some p \<Rightarrow> p < length (order_heap oc))
        (bot_heap oc))"

text \<open>The idle bots of the pool, in pool order.\<close>

definition idle_bots :: "OrderController \<Rightarrow> bot_ptr list" where
  "idle_bots oc = filter (\<lambda>b. Bot_Status (bot_heap oc ! b) = BotStatusIdle) (bots oc)"

text \<open>What an observer reads off the pending queue: the id and the class of each entry.\<close>

definition pending_view :: "OrderController \<Rightarrow> (int \<times> OrderType) list" where
  "pending_view oc =
     map (\<lambda>p. (ID (order_heap oc ! p), Type (order_heap oc ! p))) (pendingOrders oc)"

text \<open>
  A state in the middle of a call, before its assignment pass: bot 2 processes order 1001,
  bots 1 and 3 are idle, and a VIP and a Normal order wait.
\<close>

definition two_pending_three_bots :: OrderController where
  "two_pending_three_bots =
     \<lparr>order_heap =
        [\<lparr>ID = 1001, Type = OrderTypeNormal, Status = OrderStatusProcessing, BotID = 2,
          Created = 0, Started = 1, Completed = 0\<rparr>,
         \<lparr>ID = 1002, Type = OrderTypeVIP, Status = OrderStatusPending, BotID = 0,
          Created = 2, Started = 0, Completed = 0\<rparr>,
         \<lparr>ID = 1003, Type = OrderTypeNormal, Status = OrderStatusPending, BotID = 0,
          Created = 3, Started = 0, Completed = 0\<rparr>],
      bot_heap =
        [\<lparr>Bot_ID = 1, Bot_Status = BotStatusIdle, Bot_Order = None, stopChan = []\<rparr>,
         \<lparr>Bot_ID = 2, Bot_Status = BotStatusProcessing, Bot_Order = Some 0, stopChan = []\<rparr>,
         \<lparr>Bot_ID = 3, Bot_Status = BotStatusIdle, Bot_Order = None, stopChan = []\<rparr>],
      orders = [0, 1, 2], pendingOrders = [1, 2], completedOrders = [], bots = [0, 1, 2],
      nextOrderID = 1004, nextBotID = 4, goroutines = [(1, 1)]\<rparr>"

text \<open>
  A state between two calls: bot 1 processes the VIP order 1001 while a VIP and a Normal
  order wait.
\<close>

definition vip_in_flight :: OrderController where
  "vip_in_flight =
     \<lparr>order_heap =
        [\<lparr>ID = 1001, Type = OrderTypeVIP, Status = OrderStatusProcessing, BotID = 1,
          Created = 0, Started = 1, Completed = 0\<rparr>,
         \<lparr>ID = 1002, Type = OrderTypeVIP, Status = OrderStatusPending, BotID = 0,
          Created = 2, Started = 0, Completed = 0\<rparr>,
         \<lparr>ID = 1003, Type = OrderTypeNormal, Status = OrderStatusPending, BotID = 0,
          Created = 3, Started = 0, Completed = 0\<rparr>],
      bot_heap =
        [\<lparr>Bot_ID = 1, Bot_Status = BotStatusProcessing, Bot_Order = Some 0, stopChan = []\<rparr>],
      orders = [0, 1, 2], pendingOrders = [1, 2], completedOrders = [], bots = [0],
      nextOrderID = 1004, nextBotID = 2, goroutines = [(0, 1)]\<rparr>"

section \<open>The calls before their assignment pass, and the invariants\<close>

text \<open>
  The three creating calls up to their call of \<open>assignOrdersToBots\<close>:
  \<open>CreateNormalOrder now oc = assignOrdersToBots now (newNormalOrder now oc)\<close>, and the same
  for the other two.
\<close>

definition newNormalOrder :: "time \<Rightarrow> OrderController \<Rightarrow> OrderController" where
  "newNormalOrder now oc =
     oc\<lparr>nextOrderID := atomic_AddInt64 (nextOrderID oc) 1,
        order_heap := order_heap oc @
          [\<lparr>ID = wrap64 (atomic_AddInt64 (nextOrderID oc) 1 - 1), Type = OrderTypeNormal,
            Status = OrderStatusPending, BotID = 0, Created = now, Started = 0, Completed = 0\<rparr>],
        orders := orders oc @ [length (order_heap oc)],
        pendingOrders := pendingOrders oc @ [length (order_heap oc)]\<rparr>"

definition newVIPOrder :: "time \<Rightarrow> OrderController \<Rightarrow> OrderController" where
  "newVIPOrder now oc =
     insertVIPOrder (length (order_heap oc))
       (oc\<lparr>nextOrderID := atomic_AddInt64 (nextOrderID oc) 1,
           order_heap := order_heap oc @
             [\<lparr>ID = wrap64 (atomic_AddInt64 (nextOrderID oc) 1 - 1), Type = OrderTypeVIP,
               Status = OrderStatusPending, BotID = 0, Created = now, Started = 0, Completed = 0\<rparr>],
           orders := orders oc @ [length (order_heap oc)]\<rparr>)"

definition newBot :: "OrderController \<Rightarrow> OrderController" where
  "newBot oc =
     oc\<lparr>nextBotID := atomic_AddInt64 (nextBotID oc) 1,
        bot_heap := bot_heap oc @
          [\<lparr>Bot_ID = wrap64 (atomic_AddInt64 (nextBotID oc) 1 - 1), Bot_Status = BotStatusIdle,
            Bot_Order = None, stopChan = []\<rparr>],
        bots := bots oc @ [length (bot_heap oc)]\<rparr>"

text \<open>No bot of the pool has a cancellation signal waiting in its channel.\<close>

definition pool_unsignalled :: "OrderController \<Rightarrow> bool" where
  "pool_unsignalled oc = list_all (\<lambda>b. stopChan (bot_heap oc ! b) = []) (bots oc)"

text \<open>The bots ever created carry the ids 1, 2, 3, ... in the order of their creation.\<close>

definition bot_ids_ok :: "OrderController \<Rightarrow> bool" where
  "bot_ids_ok oc =
     (nextBotID oc = int (length (bot_heap oc)) + 1 \<and>
      map Bot_ID (bot_heap oc) = map (\<lambda>i. int i + 1) [0..<length (bot_heap oc)])"

definition owner_ok :: "OrderController \<Rightarrow> bool" where
  "owner_ok oc =
     list_all (\<lambda>ov. (Status ov = OrderStatusPending \<longrightarrow> BotID ov = 0) \<and>
                     (Status ov = OrderStatusProcessing \<longrightarrow> BotID ov \<noteq> 0))
       (order_heap oc)"

text \<open>
  The part of the invariant that does not depend on the values of the counters, and the
  part that holds as long as the bot counter has not wrapped around: after \<open>n\<close> events
  at most \<open>n\<close> bots have been created.
\<close>

definition queue_inv :: "OrderController \<Rightarrow> bool" where
  "queue_inv oc =
     (valid_ptrs oc \<and> partitioned oc \<and> pool_unsignalled oc \<and> sorted_wrt (<) (bots oc))"

definition id_inv :: "nat \<Rightarrow> OrderController \<Rightarrow> bool" where
  "id_inv n oc =
     (bot_ids_ok oc \<and> owner_ok oc \<and> length (bot_heap oc) \<le> n)"

text \<open>
  One step treats each class of the queue as a FIFO: the entries of the class after the
  step are those before it, in the same order, with at most one entry added at the back
  and some entries taken from the front.
\<close>

definition fifo_step :: "OrderController \<Rightarrow> OrderController \<Rightarrow> bool" where
  "fifo_step oc oc' =
     (\<forall>t. \<exists>k ins. length ins \<le> 1 \<and> class_queue t oc' = drop k (class_queue t oc @ ins))"

text \<open>
  The queue as a sorted list: whenever an entry is VIP, so is every entry before it.
\<close>

definition vip_first :: "Order list \<Rightarrow> order_ptr list \<Rightarrow> bool" where
  "vip_first h q =
     sorted_wrt (\<lambda>x y. Type (h ! y) = OrderTypeVIP \<longrightarrow> Type (h ! x) = OrderTypeVIP) q"

section \<open>Every order in one collection\<close>

text \<open>The order in the slot of a bot, as a list of at most one pointer.\<close>

definition slot_of :: "Bot list \<Rightarrow> bot_ptr \<Rightarrow> order_ptr list" where
  "slot_of bh b = (case Bot_Order (bh ! b) of None \<Rightarrow> [] | Some p \<Rightarrow> [p])"

text \<open>The orders held by the bots of the pool, in pool order.\<close>

definition in_flight :: "OrderController \<Rightarrow> order_ptr list" where
  "in_flight oc = concat (map (slot_of (bot_heap oc)) (bots oc))"

text \<open>
  Every order ever created is registered in \<open>orders\<close> once, and is in exactly one of the
  queue, a slot of a pool bot and the completed list.
\<close>

definition exclusive :: "OrderController \<Rightarrow> bool" where
  "exclusive oc =
     (orders oc = [0..<length (order_heap oc)] \<and>
      mset (pendingOrders oc @ in_flight oc @ completedOrders oc) = mset (orders oc))"

text \<open>The status of an order says which collection it is in.\<close>

definition status_ok :: "OrderController \<Rightarrow> bool" where
  "status_ok oc =
     (list_all (\<lambda>p. Status (order_heap oc ! p) = OrderStatusPending) (pendingOrders oc) \<and>
      list_all (\<lambda>p. Status (order_heap oc ! p) = OrderStatusProcessing) (in_flight oc) \<and>
      list_all (\<lambda>p. Status (order_heap oc ! p) = OrderStatusComplete) (completedOrders oc))"

text \<open>A bot of the pool is Processing exactly when it holds an order.\<close>

definition pool_ok :: "OrderController \<Rightarrow> bool" where
  "pool_ok oc =
     list_all (\<lambda>b. (Bot_Status (bot_heap oc ! b) = BotStatusProcessing) =
                    (Bot_Order (bot_heap oc ! b) \<noteq> None)) (bots oc)"

text \<open>
  A bot has at most one goroutine. The goroutine of a pool bot belongs to a Processing
  bot; the goroutine of a removed bot has its cancellation signal waiting.
\<close>

definition goroutines_ok :: "OrderController \<Rightarrow> bool" where
  "goroutines_ok oc =
     (distinct (map fst (goroutines oc)) \<and>
      list_all (\<lambda>g. if fst g \<in> set (bots oc)
                     then Bot_Status (bot_heap oc ! fst g) = BotStatusProcessing
                     else stopChan (bot_heap oc ! fst g) \<noteq> []) (goroutines oc))"

definition strong_inv :: "OrderController \<Rightarrow> bool" where
  "strong_inv oc = (queue_inv oc \<and> exclusive oc \<and> status_ok oc \<and> pool_ok oc \<and> goroutines_ok oc)"


section \<open>The insertion index\<close>

lemma insertIndex_loop_bounds:
  "idx \<le> i \<Longrightarrow>
   idx \<le> insertIndex_loop h q i idx \<and> insertIndex_loop h q i idx \<le> i + length q"
proof (induction q arbitrary: i idx)
  case Nil
  then show ?case by simp
next
  case (Cons p q)
  let ?idx' = "if Type (h ! p) = OrderTypeVIP then i + 1 else idx"
  have "?idx' \<le> i + 1" using Cons.prems by simp
  from Cons.IH[OF this] show ?case using Cons.prems by (auto split: if_splits)
qed

lemma insertIndex_loop_tail:
  "idx \<le> i \<Longrightarrow>
   \<forall>p \<in> set (drop (insertIndex_loop h q i idx - i) q). Type (h ! p) \<noteq> OrderTypeVIP"
proof (induction q arbitrary: i idx)
  case Nil
  then show ?case by simp
next
  case (Cons p q)
  define idx' where "idx' = (if Type (h ! p) = OrderTypeVIP then i + 1 else idx)"
  define r where "r = insertIndex_loop h q (i + 1) idx'"
  have le: "idx' \<le> i + 1" using Cons.prems by (simp add: idx'_def)
  have ih: "\<forall>x \<in> set (drop (r - (i + 1)) q). Type (h ! x) \<noteq> OrderTypeVIP"
    unfolding r_def using Cons.IH[OF le] .
  have bd: "idx' \<le> r" unfolding r_def using insertIndex_loop_bounds[OF le] by blast
  have res: "insertIndex_loop h (p # q) i idx = r" by (simp add: r_def idx'_def)
  show ?case
  proof (cases "r \<le> i")
    case True
    then have nv: "Type (h ! p) \<noteq> OrderTypeVIP" using bd by (auto simp: idx'_def split: if_splits)
    from True have "drop (r - (i + 1)) q = q" by simp
    with ih have "\<forall>x \<in> set q. Type (h ! x) \<noteq> OrderTypeVIP" by metis
    moreover from True have "drop (r - i) (p # q) = p # q" by simp
    ultimately show ?thesis unfolding res using nv by auto
  next
    case False
    then have "r - i = Suc (r - (i + 1))" by arith
    then have "drop (r - i) (p # q) = drop (r - (i + 1)) q"
      by (simp only: drop_Suc_Cons)
    then show ?thesis unfolding res using ih by metis
  qed
qed

lemma insertIndex_loop_last:
  "idx \<le> i \<Longrightarrow>
   (insertIndex_loop h q i idx = idx \<and> (\<forall>p \<in> set q. Type (h ! p) \<noteq> OrderTypeVIP)) \<or>
   (i < insertIndex_loop h q i idx \<and>
    Type (h ! (q ! (insertIndex_loop h q i idx - i - 1))) = OrderTypeVIP)"
proof (induction q arbitrary: i idx)
  case Nil
  then show ?case by simp
next
  case (Cons p q)
  define idx' where "idx' = (if Type (h ! p) = OrderTypeVIP then i + 1 else idx)"
  define r where "r = insertIndex_loop h q (i + 1) idx'"
  have le: "idx' \<le> i + 1" using Cons.prems by (simp add: idx'_def)
  have res: "insertIndex_loop h (p # q) i idx = r" by (simp add: r_def idx'_def)
  from Cons.IH[OF le]
  consider (none) "r = idx'" "\<forall>x \<in> set q. Type (h ! x) \<noteq> OrderTypeVIP"
    | (later) "i + 1 < r" "Type (h ! (q ! (r - (i + 1) - 1))) = OrderTypeVIP"
    unfolding r_def by blast
  then show ?case
  proof cases
    case none
    show ?thesis
    proof (cases "Type (h ! p) = OrderTypeVIP")
      case True
      then have "r = i + 1" using none by (simp add: idx'_def)
      then show ?thesis unfolding res using True by simp
    next
      case False
      then have "r = idx" using none by (simp add: idx'_def)
      then show ?thesis unfolding res using False none by simp
    qed
  next
    case later
    then have "(p # q) ! (r - i - 1) = q ! (r - (i + 1) - 1)"
      by (cases "r - i - 1") auto
    then show ?thesis unfolding res using later by simp
  qed
qed

lemma insertIndex_loop_append:
  "\<forall>p \<in> set q. p < length h \<Longrightarrow>
   insertIndex_loop (h @ h') q i idx = insertIndex_loop h q i idx"
  by (induction q arbitrary: i idx) (auto simp: nth_append)

lemma not_VIP_iff: "(t \<noteq> OrderTypeVIP) = (t = OrderTypeNormal)"
  by (cases t) auto

lemma partitioned_prefix:
  assumes part: "q = filter P q @ filter (\<lambda>x. \<not> P x) q"
    and k: "0 < k" "k \<le> length q" "P (q ! (k - 1))"
  shows "\<forall>x \<in> set (take k q). P x"
proof -
  let ?A = "filter P q" and ?B = "filter (\<lambda>x. \<not> P x) q"
  have "k - 1 < length ?A"
  proof (rule ccontr)
    assume "\<not> k - 1 < length ?A"
    then have ge: "length ?A \<le> k - 1" by simp
    have lt: "k - 1 - length ?A < length ?B"
      using k ge by (metis (no_types, lifting) part length_append add_diff_inverse_nat diff_less
          less_le_trans nat_add_left_cancel_less not_le zero_less_one)
    have "q ! (k - 1) = ?B ! (k - 1 - length ?A)"
      using ge by (metis part nth_append not_le)
    moreover have "?B ! (k - 1 - length ?A) \<in> set ?B" using lt by (rule nth_mem)
    ultimately show False using k(3) by auto
  qed
  then have "k \<le> length ?A" using k(1) by simp
  then have "take k q = take k ?A" by (metis part take_append take_all_iff diff_is_0_eq' append_Nil2 take0)
  then show ?thesis by (metis in_set_takeD mem_Collect_eq set_filter)
qed

lemma insertVIPOrder_inline_eq: "insertVIPOrder_inline order oc = insertVIPOrder order oc"
proof (cases "length (pendingOrders oc) \<le> insertIndex_loop (order_heap oc) (pendingOrders oc) 0 0")
  case True
  then show ?thesis unfolding insertVIPOrder_inline_def insertVIPOrder_def Let_def by simp
next
  case False
  then show ?thesis unfolding insertVIPOrder_inline_def insertVIPOrder_def Let_def by simp
qed

section \<open>Frame properties of the assignment pass\<close>

lemma assignOrderToBot_noop:
  "Bot_Status (bot_heap oc ! b) \<noteq> BotStatusIdle \<or> pendingOrders oc = [] \<Longrightarrow>
   assignOrderToBot now b oc = oc"
  by (auto simp: assignOrderToBot_def)

lemma assignLoop_noop:
  "(\<forall>b \<in> set bs. Bot_Status (bot_heap oc ! b) \<noteq> BotStatusIdle) \<or> pendingOrders oc = [] \<Longrightarrow>
   assignLoop now bs oc = oc"
  by (induction bs) (auto simp: assignOrderToBot_noop)

lemma assignOrdersToBots_noop:
  "(\<forall>b \<in> set (bots oc). Bot_Status (bot_heap oc ! b) \<noteq> BotStatusIdle) \<or>
   pendingOrders oc = [] \<Longrightarrow>
   assignOrdersToBots now oc = oc"
  unfolding assignOrdersToBots_def by (rule assignLoop_noop)

lemma assignOrderToBot_Type:
  "Type (order_heap (assignOrderToBot now b oc) ! p) = Type (order_heap oc ! p)"
  by (cases "pendingOrders oc ! 0 < length (order_heap oc)")
     (auto simp: assignOrderToBot_def Let_def nth_list_update list_update_beyond)

lemma assignOrderToBot_drop:
  "\<exists>m. pendingOrders (assignOrderToBot now b oc) = drop m (pendingOrders oc)"
proof (cases "Bot_Status (bot_heap oc ! b) = BotStatusIdle \<and> length (pendingOrders oc) > 0")
  case True
  then have "pendingOrders (assignOrderToBot now b oc) = drop 1 (pendingOrders oc)"
    by (simp add: assignOrderToBot_def Let_def)
  then show ?thesis by blast
next
  case False
  then have "pendingOrders (assignOrderToBot now b oc) = drop 0 (pendingOrders oc)"
    by (simp add: assignOrderToBot_def Let_def)
  then show ?thesis by blast
qed

lemma assignLoop_drop:
  "\<exists>m. pendingOrders (assignLoop now bs oc) = drop m (pendingOrders oc)"
proof (induction bs arbitrary: oc)
  case Nil
  have "pendingOrders (assignLoop now [] oc) = drop 0 (pendingOrders oc)" by simp
  then show ?case by blast
next
  case (Cons b bs)
  obtain m1 where 1: "pendingOrders (assignOrderToBot now b oc) = drop m1 (pendingOrders oc)"
    using assignOrderToBot_drop by blast
  obtain m2 where 2: "pendingOrders (assignLoop now bs (assignOrderToBot now b oc)) 
      = drop m2 (pendingOrders (assignOrderToBot now b oc))"
    using Cons.IH by blast
  have "pendingOrders (assignLoop now (b # bs) oc) = drop (m2 + m1) (pendingOrders oc)"
    using 1 2 by simp
  then show ?case by blast
qed

lemma assignLoop_Type:
  "Type (order_heap (assignLoop now bs oc) ! p) = Type (order_heap oc ! p)"
  by (induction bs arbitrary: oc) (simp_all add: assignOrderToBot_Type)

lemma CreateVIPOrder_pending_eq:
  assumes "list_all (\<lambda>p. p < length (order_heap oc)) (pendingOrders oc)"
  shows "\<exists>oc2. CreateVIPOrder now oc = assignOrdersToBots now oc2 \<and>
     bots oc2 = bots oc \<and> bot_heap oc2 = bot_heap oc \<and>
     Type (order_heap oc2 ! length (order_heap oc)) = OrderTypeVIP \<and>
     pendingOrders oc2 =
       take (insertIndex_loop (order_heap oc) (pendingOrders oc) 0 0) (pendingOrders oc) @
       [length (order_heap oc)] @
       drop (insertIndex_loop (order_heap oc) (pendingOrders oc) 0 0) (pendingOrders oc)"
  unfolding CreateVIPOrder_def Let_def
  apply (intro exI conjI)
      apply (rule refl)
  using assms
     apply (simp_all add: insertVIPOrder_def insertIndex_loop_append list_all_iff Let_def)
  done

section \<open>C3: where CreateVIPOrder puts the new order\<close>

text \<open>
  Claim C3. \<open>CreateVIPOrder\<close> allocates the new order \<open>new\<close> and inserts it at the index
  \<open>k\<close> that the loop computes: \<open>k\<close> is within the queue, the entry just before \<open>k\<close> is a
  VIP order (or \<open>k = 0\<close> and the queue has no VIP order), every entry from \<open>k\<close> on is
  Normal, and in a partitioned queue every entry before \<open>k\<close> is VIP. The new order is of
  class VIP. The queue after the call is \<open>take k q @ [new] @ drop k q\<close> with the entries
  popped by the assignment pass that ends the call removed from its front; with no idle
  bot in the pool (in particular with no bot) nothing is popped. The in-place insertion of
  the earlier revision builds the same queue. Creating Normal, Normal, VIP, Normal on a
  new controller gives the queue VIP 1003, Normal 1001, Normal 1002, Normal 1004.
\<close>

theorem CreateVIPOrder_position:
  assumes valid: "list_all (\<lambda>p. p < length (order_heap oc)) (pendingOrders oc)"
  shows
    "(let h = order_heap oc; q = pendingOrders oc; new = length h;
          k = insertIndex_loop h q 0 0
      in k \<le> length q \<and>
         (if k = 0 then list_all (\<lambda>p. Type (h ! p) = OrderTypeNormal) q
          else Type (h ! (q ! (k - 1))) = OrderTypeVIP) \<and>
         list_all (\<lambda>p. Type (h ! p) = OrderTypeNormal) (drop k q) \<and>
         (partitioned oc \<longrightarrow> list_all (\<lambda>p. Type (h ! p) = OrderTypeVIP) (take k q)) \<and>
         Type (order_heap (CreateVIPOrder now oc) ! new) = OrderTypeVIP \<and>
         (\<exists>m. pendingOrders (CreateVIPOrder now oc) = drop m (take k q @ [new] @ drop k q)) \<and>
         (list_all (\<lambda>b. Bot_Status (bot_heap oc ! b) \<noteq> BotStatusIdle) (bots oc) \<longrightarrow>
            pendingOrders (CreateVIPOrder now oc) = take k q @ [new] @ drop k q) \<and>
         insertVIPOrder_inline new oc = insertVIPOrder new oc) \<and>
     map_option pending_view
       (run [EvCreateNormalOrder 0, EvCreateNormalOrder 1, EvCreateVIPOrder 2,
             EvCreateNormalOrder 3] NewOrderController) =
     Some [(1003, OrderTypeVIP), (1001, OrderTypeNormal), (1002, OrderTypeNormal),
           (1004, OrderTypeNormal)]"
proof -
  define h where "h = order_heap oc"
  define q where "q = pendingOrders oc"
  define new where "new = length h"
  define k where "k = insertIndex_loop h q 0 0"
  have kq: "k \<le> length q"
    unfolding k_def using insertIndex_loop_bounds[of 0 0 h q] by simp
  have tail: "list_all (\<lambda>p. Type (h ! p) = OrderTypeNormal) (drop k q)"
    unfolding k_def list_all_iff using insertIndex_loop_tail[of 0 0 h q]
    by (simp add: not_VIP_iff)
  have last: "if k = 0 then list_all (\<lambda>p. Type (h ! p) = OrderTypeNormal) q
          else Type (h ! (q ! (k - 1))) = OrderTypeVIP"
    unfolding k_def list_all_iff using insertIndex_loop_last[of 0 0 h q]
    by (auto simp: not_VIP_iff)
  have pre: "list_all (\<lambda>p. Type (h ! p) = OrderTypeVIP) (take k q)" if part: "partitioned oc"
  proof (cases "k = 0")
    case True
    then show ?thesis by simp
  next
    case False
    have "q = filter (\<lambda>p. Type (h ! p) = OrderTypeVIP) q @
              filter (\<lambda>x. \<not> Type (h ! x) = OrderTypeVIP) q"
      using part by (simp add: partitioned_def class_queue_def h_def q_def not_VIP_iff)
    from partitioned_prefix[OF this, of k] False kq last show ?thesis
      by (simp add: list_all_iff)
  qed
  obtain oc2 where oc2: "CreateVIPOrder now oc = assignOrdersToBots now oc2"
     "bots oc2 = bots oc" "bot_heap oc2 = bot_heap oc"
     "Type (order_heap oc2 ! new) = OrderTypeVIP"
     "pendingOrders oc2 = take k q @ [new] @ drop k q"
    using CreateVIPOrder_pending_eq[OF valid, of now] unfolding k_def h_def q_def new_def by blast
  have ty: "Type (order_heap (CreateVIPOrder now oc) ! new) = OrderTypeVIP"
    using oc2(1,4) by (simp add: assignOrdersToBots_def assignLoop_Type)
  have pop: "\<exists>m. pendingOrders (CreateVIPOrder now oc) = drop m (take k q @ [new] @ drop k q)"
    using oc2(1,5) assignLoop_drop[of now "bots oc2" oc2] by (simp add: assignOrdersToBots_def)
  have noidle: "pendingOrders (CreateVIPOrder now oc) = take k q @ [new] @ drop k q"
    if "list_all (\<lambda>b. Bot_Status (bot_heap oc ! b) \<noteq> BotStatusIdle) (bots oc)"
  proof -
    have "assignOrdersToBots now oc2 = oc2"
      using that oc2(2,3) by (intro assignOrdersToBots_noop) (simp add: list_all_iff)
    then show ?thesis using oc2(1,5) by simp
  qed
  have scen: "map_option pending_view
       (run [EvCreateNormalOrder 0, EvCreateNormalOrder 1, EvCreateVIPOrder 2,
             EvCreateNormalOrder 3] NewOrderController) =
     Some [(1003, OrderTypeVIP), (1001, OrderTypeNormal), (1002, OrderTypeNormal),
           (1004, OrderTypeNormal)]"
    by code_simp
  show ?thesis
    unfolding Let_def
    using kq tail last pre ty pop noidle scen insertVIPOrder_inline_eq[of new oc]
    unfolding h_def q_def new_def k_def by blast
qed

theorem CreateVIPOrder_position_witness:
  "list_all (\<lambda>p. p < length (order_heap (CreateNormalOrder 1 (CreateNormalOrder 0 NewOrderController))))
     (pendingOrders (CreateNormalOrder 1 (CreateNormalOrder 0 NewOrderController))) \<and>
   partitioned (CreateNormalOrder 1 (CreateNormalOrder 0 NewOrderController)) \<and>
   list_all (\<lambda>b. Bot_Status (bot_heap (CreateNormalOrder 1 (CreateNormalOrder 0 NewOrderController)) ! b) \<noteq> BotStatusIdle)
     (bots (CreateNormalOrder 1 (CreateNormalOrder 0 NewOrderController))) \<and>
   insertIndex_loop (order_heap (CreateNormalOrder 1 (CreateNormalOrder 0 NewOrderController)))
     (pendingOrders (CreateNormalOrder 1 (CreateNormalOrder 0 NewOrderController))) 0 0 = 0 \<and>
   pendingOrders (CreateVIPOrder 2 (CreateNormalOrder 1 (CreateNormalOrder 0 NewOrderController))) = [2, 0, 1]"
  using CreateVIPOrder_position [of "CreateNormalOrder 1 (CreateNormalOrder 0 NewOrderController)" 2]
  by (simp add: NewOrderController_def CreateNormalOrder_def CreateVIPOrder_def Let_def
      assignOrdersToBots_def insertVIPOrder_def atomic_AddInt64_def wrap64_def
      partitioned_def class_queue_def)

section \<open>The assignment pass: what it reaches\<close>

lemma assignOrderToBot_bots [simp]: "bots (assignOrderToBot now b oc) = bots oc"
  by (simp add: assignOrderToBot_def Let_def)

lemma assignLoop_bots [simp]: "bots (assignLoop now bs oc) = bots oc"
  by (induction bs arbitrary: oc) simp_all

lemma assignOrderToBot_length_bot_heap [simp]:
  "length (bot_heap (assignOrderToBot now b oc)) = length (bot_heap oc)"
  by (simp add: assignOrderToBot_def Let_def)

lemma assignLoop_length_bot_heap [simp]:
  "length (bot_heap (assignLoop now bs oc)) = length (bot_heap oc)"
  by (induction bs arbitrary: oc) simp_all

lemma assignOrderToBot_length_order_heap [simp]:
  "length (order_heap (assignOrderToBot now b oc)) = length (order_heap oc)"
  by (simp add: assignOrderToBot_def Let_def)

lemma assignLoop_length_order_heap [simp]:
  "length (order_heap (assignLoop now bs oc)) = length (order_heap oc)"
  by (induction bs arbitrary: oc) simp_all

lemma assignOrderToBot_busy_stays:
  "Bot_Status (bot_heap oc ! x) \<noteq> BotStatusIdle \<Longrightarrow>
   Bot_Status (bot_heap (assignOrderToBot now b oc) ! x) \<noteq> BotStatusIdle"
  by (cases "b < length (bot_heap oc)")
     (auto simp: assignOrderToBot_def Let_def nth_list_update list_update_beyond)

lemma assignLoop_busy_stays:
  "Bot_Status (bot_heap oc ! x) \<noteq> BotStatusIdle \<Longrightarrow>
   Bot_Status (bot_heap (assignLoop now bs oc) ! x) \<noteq> BotStatusIdle"
  by (induction bs arbitrary: oc) (simp_all add: assignOrderToBot_busy_stays)

lemma assignOrderToBot_takes:
  "b < length (bot_heap oc) \<Longrightarrow>
   pendingOrders oc = [] \<or> Bot_Status (bot_heap (assignOrderToBot now b oc) ! b) \<noteq> BotStatusIdle"
  by (auto simp: assignOrderToBot_def Let_def)

lemma assignLoop_saturates:
  "\<forall>b \<in> set bs. b < length (bot_heap oc) \<Longrightarrow>
   pendingOrders (assignLoop now bs oc) = [] \<or>
   (\<forall>b \<in> set bs. Bot_Status (bot_heap (assignLoop now bs oc) ! b) \<noteq> BotStatusIdle)"
proof (induction bs arbitrary: oc)
  case Nil
  then show ?case by simp
next
  case (Cons b bs)
  let ?oc1 = "assignOrderToBot now b oc"
  have valid1: "\<forall>x \<in> set bs. x < length (bot_heap ?oc1)" using Cons.prems by simp
  show ?case
  proof (cases "pendingOrders oc = []")
    case True
    then have "assignLoop now (b # bs) oc = oc" by (intro assignLoop_noop) simp
    with True show ?thesis by simp
  next
    case False
    then have "Bot_Status (bot_heap ?oc1 ! b) \<noteq> BotStatusIdle"
      using assignOrderToBot_takes[of b oc now] Cons.prems by simp
    then have "Bot_Status (bot_heap (assignLoop now bs ?oc1) ! b) \<noteq> BotStatusIdle"
      by (rule assignLoop_busy_stays)
    with Cons.IH[OF valid1] show ?thesis by auto
  qed
qed

lemma assignOrderToBot_other_fields [simp]:
  "orders (assignOrderToBot now b oc) = orders oc"
  "completedOrders (assignOrderToBot now b oc) = completedOrders oc"
  "nextOrderID (assignOrderToBot now b oc) = nextOrderID oc"
  "nextBotID (assignOrderToBot now b oc) = nextBotID oc"
  by (simp_all add: assignOrderToBot_def Let_def)

lemma assignLoop_other_fields [simp]:
  "orders (assignLoop now bs oc) = orders oc"
  "completedOrders (assignLoop now bs oc) = completedOrders oc"
  "nextOrderID (assignLoop now bs oc) = nextOrderID oc"
  "nextBotID (assignLoop now bs oc) = nextBotID oc"
  by (induction bs arbitrary: oc) simp_all

lemma assignOrderToBot_idle_step:
  assumes "Bot_Status (bot_heap oc ! b) = BotStatusIdle" "pendingOrders oc = p # q"
  shows "assignOrderToBot now b oc =
     oc\<lparr>pendingOrders := q,
        bot_heap := (bot_heap oc)[b := (bot_heap oc ! b)\<lparr>Bot_Order := Some p,
                                                       Bot_Status := BotStatusProcessing\<rparr>],
        order_heap := (order_heap oc)[p := (order_heap oc ! p)\<lparr>Status := OrderStatusProcessing,
                                        BotID := Bot_ID (bot_heap oc ! b), Started := now\<rparr>],
        goroutines := goroutines oc @ [(b, now)]\<rparr>"
  using assms by (simp add: assignOrderToBot_def Let_def)

lemma filter_idle_update:
  "b \<notin> set bs \<Longrightarrow>
   filter (\<lambda>x. Bot_Status (h[b := v] ! x) = BotStatusIdle) bs =
   filter (\<lambda>x. Bot_Status (h ! x) = BotStatusIdle) bs"
  by (induction bs) auto

text \<open>
  The pass on any list of distinct bots: the queue entries go, in order, to the bots that
  were idle when the pass began, until one of the two runs out.
\<close>

lemma assignLoop_result:
  fixes now :: time and bs :: "bot_ptr list" and oc :: OrderController
  assumes "distinct bs" "\<forall>b \<in> set bs. b < length (bot_heap oc)"
    "distinct (pendingOrders oc)" "\<forall>p \<in> set (pendingOrders oc). p < length (order_heap oc)"
  defines "idle \<equiv> filter (\<lambda>b. Bot_Status (bot_heap oc ! b) = BotStatusIdle) bs"
  defines "k \<equiv> min (length idle) (length (pendingOrders oc))"
  defines "oc' \<equiv> assignLoop now bs oc"
  shows "pendingOrders oc' = drop k (pendingOrders oc) \<and>
     goroutines oc' = goroutines oc @ map (\<lambda>b. (b, now)) (take k idle) \<and>
     (\<forall>i < k. bot_heap oc' ! (idle ! i) =
        (bot_heap oc ! (idle ! i))\<lparr>Bot_Order := Some (pendingOrders oc ! i),
                                   Bot_Status := BotStatusProcessing\<rparr>) \<and>
     (\<forall>i < k. order_heap oc' ! (pendingOrders oc ! i) =
        (order_heap oc ! (pendingOrders oc ! i))\<lparr>Status := OrderStatusProcessing,
           BotID := Bot_ID (bot_heap oc ! (idle ! i)), Started := now\<rparr>) \<and>
     (\<forall>b. b \<notin> set (take k idle) \<longrightarrow> bot_heap oc' ! b = bot_heap oc ! b) \<and>
     (\<forall>p. p \<notin> set (take k (pendingOrders oc)) \<longrightarrow> order_heap oc' ! p = order_heap oc ! p)"
  using assms(1-4) unfolding idle_def k_def oc'_def
proof (induction bs arbitrary: oc)
  case Nil
  then show ?case by simp
next
  case (Cons b bs)
  let ?idle1 = "filter (\<lambda>b. Bot_Status (bot_heap oc ! b) = BotStatusIdle) bs"
  show ?case
  proof (cases "Bot_Status (bot_heap oc ! b) = BotStatusIdle")
    case False
    then have 1: "assignOrderToBot now b oc = oc" by (simp add: assignOrderToBot_noop)
    show ?thesis using Cons.IH[of oc] Cons.prems False by (simp add: 1)
  next
    case idle: True
    show ?thesis
    proof (cases "pendingOrders oc")
      case Nil
      then have "assignLoop now (b # bs) oc = oc" by (intro assignLoop_noop) simp
      then show ?thesis using Nil by simp
    next
      case (Cons p q)
      let ?bv = "(bot_heap oc ! b)\<lparr>Bot_Order := Some p, Bot_Status := BotStatusProcessing\<rparr>"
      let ?ov = "(order_heap oc ! p)\<lparr>Status := OrderStatusProcessing,
                                        BotID := Bot_ID (bot_heap oc ! b), Started := now\<rparr>"
      define oc1 where "oc1 = assignOrderToBot now b oc"
      have oc1: "pendingOrders oc1 = q" "bot_heap oc1 = (bot_heap oc)[b := ?bv]"
        "order_heap oc1 = (order_heap oc)[p := ?ov]" "goroutines oc1 = goroutines oc @ [(b, now)]"
        unfolding oc1_def by (simp_all add: assignOrderToBot_idle_step[OF idle Cons])
      have bnot: "b \<notin> set bs" and dbs: "distinct bs" using Cons.prems(1) by auto
      have pnot: "p \<notin> set q" and dq: "distinct q" using Cons.prems(3) Cons by auto
      have blt: "b < length (bot_heap oc)" and plt: "p < length (order_heap oc)"
        using Cons.prems(2,4) Cons by auto
      have idle1: "filter (\<lambda>x. Bot_Status (bot_heap oc1 ! x) = BotStatusIdle) bs = ?idle1"
        unfolding oc1 using bnot by (rule filter_idle_update)
      have prems1: "distinct bs" "\<forall>b \<in> set bs. b < length (bot_heap oc1)"
        "distinct (pendingOrders oc1)" "\<forall>p \<in> set (pendingOrders oc1). p < length (order_heap oc1)"
        using Cons.prems Cons oc1 by auto
      note ih = Cons.IH[OF prems1, unfolded idle1 oc1(1)]
      define k1 where "k1 = min (length ?idle1) (length q)"
      define oc' where "oc' = assignLoop now bs oc1"
      have res: "assignLoop now (b # bs) oc = oc'" by (simp add: oc'_def oc1_def)
      have ih1: "pendingOrders oc' = drop k1 q"
        and ih2: "goroutines oc' = goroutines oc1 @ map (\<lambda>b. (b, now)) (take k1 ?idle1)"
        and ih3: "\<And>i. i < k1 \<Longrightarrow> bot_heap oc' ! (?idle1 ! i) =
            (bot_heap oc1 ! (?idle1 ! i))\<lparr>Bot_Order := Some (q ! i), Bot_Status := BotStatusProcessing\<rparr>"
        and ih4: "\<And>i. i < k1 \<Longrightarrow> order_heap oc' ! (q ! i) =
            (order_heap oc1 ! (q ! i))\<lparr>Status := OrderStatusProcessing,
               BotID := Bot_ID (bot_heap oc1 ! (?idle1 ! i)), Started := now\<rparr>"
        and ih5: "\<And>x. x \<notin> set (take k1 ?idle1) \<Longrightarrow> bot_heap oc' ! x = bot_heap oc1 ! x"
        and ih6: "\<And>x. x \<notin> set (take k1 q) \<Longrightarrow> order_heap oc' ! x = order_heap oc1 ! x"
        using ih unfolding k1_def oc'_def by blast+
      have idle_eq: "filter (\<lambda>b. Bot_Status (bot_heap oc ! b) = BotStatusIdle) (b # bs) = b # ?idle1"
        using idle by simp
      have k_eq: "min (length (b # ?idle1)) (length (pendingOrders oc)) = Suc k1"
        using Cons by (simp add: k1_def)
      have b_notin: "b \<notin> set (take k1 ?idle1)" using bnot by (auto dest: in_set_takeD)
      have p_notin: "p \<notin> set (take k1 q)" using pnot by (auto dest: in_set_takeD)
      have idle1_ne: "?idle1 ! i \<noteq> b" if "i < k1" for i
        using that bnot unfolding k1_def
        by (metis (no_types, lifting) filter_is_subset min_less_iff_conj nth_mem subsetD)
      have q_ne: "q ! i \<noteq> p" if "i < k1" for i
        using that pnot unfolding k1_def by (metis min_less_iff_conj nth_mem)
      have c1: "pendingOrders oc' = drop (Suc k1) (pendingOrders oc)" using ih1 Cons by simp
      have c2: "goroutines oc' = goroutines oc @ map (\<lambda>b. (b, now)) (take (Suc k1) (b # ?idle1))"
        using ih2 oc1(4) by simp
      have c3: "bot_heap oc' ! ((b # ?idle1) ! i) =
            (bot_heap oc ! ((b # ?idle1) ! i))\<lparr>Bot_Order := Some (pendingOrders oc ! i),
                 Bot_Status := BotStatusProcessing\<rparr>" if "i < Suc k1" for i
      proof (cases i)
        case 0
        then show ?thesis using ih5[OF b_notin] oc1(2) blt Cons by simp
      next
        case (Suc j)
        then have j: "j < k1" using that by simp
        show ?thesis using ih3[OF j] idle1_ne[OF j] Suc Cons oc1(2) by simp
      qed
      have c4: "order_heap oc' ! (pendingOrders oc ! i) =
            (order_heap oc ! (pendingOrders oc ! i))\<lparr>Status := OrderStatusProcessing,
               BotID := Bot_ID (bot_heap oc ! ((b # ?idle1) ! i)), Started := now\<rparr>"
        if "i < Suc k1" for i
      proof (cases i)
        case 0
        then show ?thesis using ih6[OF p_notin] oc1(3) plt Cons by simp
      next
        case (Suc j)
        then have j: "j < k1" using that by simp
        show ?thesis using ih4[OF j] idle1_ne[OF j] q_ne[OF j] Suc Cons oc1(2,3) by simp
      qed
      have c5: "bot_heap oc' ! x = bot_heap oc ! x" if "x \<notin> set (take (Suc k1) (b # ?idle1))" for x
      proof -
        from that have "x \<noteq> b" "x \<notin> set (take k1 ?idle1)" by auto
        then show ?thesis using ih5[of x] oc1(2) by simp
      qed
      have c6: "order_heap oc' ! x = order_heap oc ! x"
        if "x \<notin> set (take (Suc k1) (pendingOrders oc))" for x
      proof -
        from that have "x \<noteq> p" "x \<notin> set (take k1 q)" using Cons by auto
        then show ?thesis using ih6[of x] oc1(3) by simp
      qed
      show ?thesis unfolding res idle_eq k_eq using c1 c2 c3 c4 c5 c6 by blast
    qed
  qed
qed

section \<open>C7: the assignment pass is idempotent\<close>

text \<open>
  Claim C7. With no idle bot in the pool or an empty queue, the pass returns the state
  it was given. For every state, a second pass right after a first one (whatever the
  clock reads) changes nothing. After a pass the queue is empty or no bot of the pool is
  idle.
\<close>

theorem assignOrdersToBots_idempotent:
  assumes "list_all (\<lambda>b. b < length (bot_heap oc)) (bots oc)"
  shows "(list_all (\<lambda>b. Bot_Status (bot_heap oc ! b) \<noteq> BotStatusIdle) (bots oc) \<or>
          pendingOrders oc = [] \<longrightarrow> assignOrdersToBots now oc = oc) \<and>
         assignOrdersToBots now' (assignOrdersToBots now oc) = assignOrdersToBots now oc \<and>
         (pendingOrders (assignOrdersToBots now oc) = [] \<or>
          list_all (\<lambda>b. Bot_Status (bot_heap (assignOrdersToBots now oc) ! b) \<noteq> BotStatusIdle)
            (bots (assignOrdersToBots now oc)))"
proof -
  have sat: "pendingOrders (assignOrdersToBots now oc) = [] \<or>
     (\<forall>b \<in> set (bots oc). Bot_Status (bot_heap (assignOrdersToBots now oc) ! b) \<noteq> BotStatusIdle)"
    unfolding assignOrdersToBots_def
    using assms by (intro assignLoop_saturates) (simp add: list_all_iff)
  have bs: "bots (assignOrdersToBots now oc) = bots oc"
    by (simp add: assignOrdersToBots_def)
  have again: "assignOrdersToBots now' (assignOrdersToBots now oc) = assignOrdersToBots now oc"
    using sat bs by (intro assignOrdersToBots_noop) auto
  have noop: "assignOrdersToBots now oc = oc"
    if "list_all (\<lambda>b. Bot_Status (bot_heap oc ! b) \<noteq> BotStatusIdle) (bots oc) \<or>
          pendingOrders oc = []"
    using that by (intro assignOrdersToBots_noop) (auto simp: list_all_iff)
  show ?thesis using sat bs again noop by (auto simp: list_all_iff)
qed

theorem assignOrdersToBots_idempotent_witness:
  "list_all (\<lambda>b. b < length (bot_heap two_pending_three_bots)) (bots two_pending_three_bots) \<and>
   assignOrdersToBots 7 two_pending_three_bots \<noteq> two_pending_three_bots \<and>
   assignOrdersToBots 9 (assignOrdersToBots 7 two_pending_three_bots) =
     assignOrdersToBots 7 two_pending_three_bots \<and>
   pendingOrders (assignOrdersToBots 7 two_pending_three_bots) = [] \<and>
   pendingOrders (two_pending_three_bots\<lparr>pendingOrders := []\<rparr>) = [] \<and>
   assignOrdersToBots 7 (two_pending_three_bots\<lparr>pendingOrders := []\<rparr>) =
     two_pending_three_bots\<lparr>pendingOrders := []\<rparr>"
  using assignOrdersToBots_idempotent [of two_pending_three_bots 7 9]
    assignOrdersToBots_idempotent [of "two_pending_three_bots\<lparr>pendingOrders := []\<rparr>" 7 9]
  by (simp add: two_pending_three_bots_def assignOrdersToBots_def assignOrderToBot_def Let_def)

section \<open>C6: what one assignment pass does\<close>

text \<open>
  Claim C6. Let \<open>idle\<close> be the idle bots of the pool in pool (creation) order, \<open>q\<close> the
  pending queue and \<open>k\<close> the smaller of their lengths. After the pass the queue is \<open>q\<close>
  without its first \<open>k\<close> entries; for each \<open>i < k\<close> the \<open>i\<close>-th idle bot is Processing and
  holds the \<open>i\<close>-th order of \<open>q\<close>, and that order is Processing, carries the bot's id and
  has \<open>Started = now\<close>; no other bot and no other order is touched; one goroutine is
  started for each of the \<open>k\<close> bots. One iteration of the loop, for an idle bot and a
  non-empty queue, removes the head of the queue and makes exactly these writes.
\<close>

theorem assignOrdersToBots_first_k:
  assumes "distinct (bots oc)" "list_all (\<lambda>b. b < length (bot_heap oc)) (bots oc)"
    "distinct (pendingOrders oc)" "list_all (\<lambda>p. p < length (order_heap oc)) (pendingOrders oc)"
  shows
    "(let idle = idle_bots oc; q = pendingOrders oc; k = min (length idle) (length q);
          oc' = assignOrdersToBots now oc
      in pendingOrders oc' = drop k q \<and>
         (\<forall>i < k. bot_heap oc' ! (idle ! i) =
            (bot_heap oc ! (idle ! i))\<lparr>Bot_Order := Some (q ! i),
                                       Bot_Status := BotStatusProcessing\<rparr>) \<and>
         (\<forall>i < k. order_heap oc' ! (q ! i) =
            (order_heap oc ! (q ! i))\<lparr>Status := OrderStatusProcessing,
               BotID := Bot_ID (bot_heap oc ! (idle ! i)), Started := now\<rparr>) \<and>
         (\<forall>b. b \<notin> set (take k idle) \<longrightarrow> bot_heap oc' ! b = bot_heap oc ! b) \<and>
         (\<forall>p. p \<notin> set (take k q) \<longrightarrow> order_heap oc' ! p = order_heap oc ! p) \<and>
         goroutines oc' = goroutines oc @ map (\<lambda>b. (b, now)) (take k idle) \<and>
         bots oc' = bots oc \<and> orders oc' = orders oc \<and>
         completedOrders oc' = completedOrders oc \<and>
         length (bot_heap oc') = length (bot_heap oc) \<and>
         length (order_heap oc') = length (order_heap oc)) \<and>
     (\<forall>b p q. Bot_Status (bot_heap oc ! b) = BotStatusIdle \<and> pendingOrders oc = p # q \<longrightarrow>
        assignOrderToBot now b oc =
          oc\<lparr>pendingOrders := q,
             bot_heap := (bot_heap oc)[b := (bot_heap oc ! b)\<lparr>Bot_Order := Some p,
                                              Bot_Status := BotStatusProcessing\<rparr>],
             order_heap := (order_heap oc)[p := (order_heap oc ! p)\<lparr>Status := OrderStatusProcessing,
                                              BotID := Bot_ID (bot_heap oc ! b), Started := now\<rparr>],
             goroutines := goroutines oc @ [(b, now)]\<rparr>)"
proof -
  have a: "\<forall>b \<in> set (bots oc). b < length (bot_heap oc)"
    and b: "\<forall>p \<in> set (pendingOrders oc). p < length (order_heap oc)"
    using assms(2,4) by (simp_all add: list_all_iff)
  note r = assignLoop_result[OF assms(1) a assms(3) b, of now]
  show ?thesis
    unfolding Let_def idle_bots_def assignOrdersToBots_def
    using r assignOrderToBot_idle_step[of oc _ _ _ now] by simp
qed

theorem assignOrdersToBots_first_k_witness:
  "distinct (bots two_pending_three_bots) \<and>
   list_all (\<lambda>b. b < length (bot_heap two_pending_three_bots)) (bots two_pending_three_bots) \<and>
   distinct (pendingOrders two_pending_three_bots) \<and>
   list_all (\<lambda>p. p < length (order_heap two_pending_three_bots))
     (pendingOrders two_pending_three_bots) \<and>
   idle_bots two_pending_three_bots = [0, 2] \<and>
   pendingOrders two_pending_three_bots = [1, 2] \<and>
   pendingOrders (assignOrdersToBots 7 two_pending_three_bots) = [] \<and>
   bot_heap (assignOrdersToBots 7 two_pending_three_bots) ! 0 =
     \<lparr>Bot_ID = 1, Bot_Status = BotStatusProcessing, Bot_Order = Some 1, stopChan = []\<rparr> \<and>
   bot_heap (assignOrdersToBots 7 two_pending_three_bots) ! 2 =
     \<lparr>Bot_ID = 3, Bot_Status = BotStatusProcessing, Bot_Order = Some 2, stopChan = []\<rparr> \<and>
   order_heap (assignOrdersToBots 7 two_pending_three_bots) ! 1 =
     \<lparr>ID = 1002, Type = OrderTypeVIP, Status = OrderStatusProcessing, BotID = 1,
      Created = 2, Started = 7, Completed = 0\<rparr> \<and>
   order_heap (assignOrdersToBots 7 two_pending_three_bots) ! 2 =
     \<lparr>ID = 1003, Type = OrderTypeNormal, Status = OrderStatusProcessing, BotID = 3,
      Created = 3, Started = 7, Completed = 0\<rparr> \<and>
   goroutines (assignOrdersToBots 7 two_pending_three_bots) = [(1, 1), (0, 7), (2, 7)]"
  using assignOrdersToBots_first_k [of two_pending_three_bots 7]
  by (simp add: two_pending_three_bots_def idle_bots_def assignOrdersToBots_def
      assignOrderToBot_def Let_def)

section \<open>Removal and completion, step by step\<close>


lemma Type_reset [simp]:
  "Type (h[p := (h ! p)\<lparr>Status := s, BotID := n\<rparr>] ! x) = Type (h ! x)"
  by (cases "p < length h") (auto simp: nth_list_update list_update_beyond)

lemma insertOrderToPending_pending:
  "pendingOrders (insertOrderToPending p oc) =
     (case Type (order_heap oc ! p) of
        OrderTypeVIP \<Rightarrow>
          take (insertIndex_loop (order_heap oc) (pendingOrders oc) 0 0) (pendingOrders oc) @ [p] @
          drop (insertIndex_loop (order_heap oc) (pendingOrders oc) 0 0) (pendingOrders oc)
      | OrderTypeNormal \<Rightarrow> pendingOrders oc @ [p])"
  by (simp add: insertOrderToPending_def insertVIPOrder_def Let_def split: OrderType.split)



lemma RemoveBot_processing:
  assumes "bots oc = bs @ [b]" "Bot_Status (bot_heap oc ! b) = BotStatusProcessing"
    "Bot_Order (bot_heap oc ! b) = Some p" "stopChan (bot_heap oc ! b) = []"
  shows "RemoveBot now oc =
     Some (assignOrdersToBots now (insertOrderToPending p
       (oc\<lparr>bots := bs,
           bot_heap := (bot_heap oc)[b := (bot_heap oc ! b)\<lparr>stopChan := [True]\<rparr>],
           order_heap := (order_heap oc)[p := (order_heap oc ! p)\<lparr>Status := OrderStatusPending,
                                                                   BotID := 0\<rparr>]\<rparr>)))"
  using assms
  by (simp add: RemoveBot_def removeBotFromList_def stopBotProcessing_def chan_send_def
      handleProcessingBotRemoval_def Let_def)

lemma insertOrderToPending_fields [simp]:
  "order_heap (insertOrderToPending p oc) = order_heap oc"
  "bot_heap (insertOrderToPending p oc) = bot_heap oc"
  "bots (insertOrderToPending p oc) = bots oc"
  "orders (insertOrderToPending p oc) = orders oc"
  "completedOrders (insertOrderToPending p oc) = completedOrders oc"
  "goroutines (insertOrderToPending p oc) = goroutines oc"
  "nextOrderID (insertOrderToPending p oc) = nextOrderID oc"
  "nextBotID (insertOrderToPending p oc) = nextBotID oc"
  by (simp_all add: insertOrderToPending_def insertVIPOrder_def Let_def split: OrderType.split)

lemma Bot_Status_stop [simp]:
  "Bot_Status (h[b := (h ! b)\<lparr>stopChan := c\<rparr>] ! x) = Bot_Status (h ! x)"
  by (cases "b < length h") (auto simp: nth_list_update list_update_beyond)

lemma filter_eq_distinct: "b \<in> set xs \<Longrightarrow> distinct xs \<Longrightarrow> filter (\<lambda>x. x = b) xs = [b]"
  by (induction xs) (auto simp: filter_empty_conv)

lemma processOrder_iteration_completes:
  assumes "Bot_Order (bot_heap oc ! b) = Some p" "duration \<le> now - startTime"
  shows "processOrder_iteration now recv_ticker (b, startTime) oc =
     Some (True, assignOrdersToBots now
       (oc\<lparr>order_heap := (order_heap oc)[p := (order_heap oc ! p)\<lparr>Status := OrderStatusComplete,
                                                                   Completed := now\<rparr>],
           bot_heap := (bot_heap oc)[b := (bot_heap oc ! b)\<lparr>Bot_Order := None,
                                                            Bot_Status := BotStatusIdle\<rparr>],
           completedOrders := completedOrders oc @ [p]\<rparr>))"
  using assms
  by (simp add: processOrder_iteration_def completeOrderProcessing_def
      finalizeOrderCompletion_def Let_def)

section \<open>C5: a removed bot's order goes back to the queue\<close>



section \<open>C8: the completion path\<close>

text \<open>
  Claim C8. When the goroutine of a bot that holds the order \<open>p\<close> takes a tick at least
  \<open>duration\<close> after its start, it returns, and the state it leaves is the assignment pass
  applied to the state in which \<open>p\<close> is Complete with \<open>Completed = now\<close> and appended to
  \<open>completedOrders\<close>, and the bot is Idle with no order. When the bot is in the pool, is
  the only idle bot then, and the queue is not empty, that pass gives it the head of the
  queue.
\<close>

theorem completion_path:
  assumes "b < length (bot_heap oc)" "Bot_Order (bot_heap oc ! b) = Some p"
    "p < length (order_heap oc)" "duration \<le> now - startTime"
  shows
    "(let oc1 = oc\<lparr>order_heap := (order_heap oc)[p := (order_heap oc ! p)\<lparr>Status := OrderStatusComplete,
                                                                        Completed := now\<rparr>],
                   bot_heap := (bot_heap oc)[b := (bot_heap oc ! b)\<lparr>Bot_Order := None,
                                                                 Bot_Status := BotStatusIdle\<rparr>],
                   completedOrders := completedOrders oc @ [p]\<rparr>
      in processOrder_iteration now recv_ticker (b, startTime) oc =
           Some (True, assignOrdersToBots now oc1) \<and>
         Status (order_heap oc1 ! p) = OrderStatusComplete \<and>
         Completed (order_heap oc1 ! p) = now \<and>
         completedOrders oc1 = completedOrders oc @ [p] \<and>
         Bot_Status (bot_heap oc1 ! b) = BotStatusIdle \<and>
         Bot_Order (bot_heap oc1 ! b) = None \<and>
         pendingOrders oc1 = pendingOrders oc \<and> bots oc1 = bots oc \<and>
         (\<forall>next_order q.
            pendingOrders oc = next_order # q \<and> distinct (pendingOrders oc) \<and>
            list_all (\<lambda>x. x < length (order_heap oc)) (pendingOrders oc) \<and>
            b \<in> set (bots oc) \<and> distinct (bots oc) \<and>
            list_all (\<lambda>x. x < length (bot_heap oc)) (bots oc) \<and>
            list_all (\<lambda>x. x \<noteq> b \<longrightarrow> Bot_Status (bot_heap oc ! x) \<noteq> BotStatusIdle) (bots oc) \<longrightarrow>
            pendingOrders (assignOrdersToBots now oc1) = q \<and>
            Bot_Order (bot_heap (assignOrdersToBots now oc1) ! b) = Some next_order \<and>
            Bot_Status (bot_heap (assignOrdersToBots now oc1) ! b) = BotStatusProcessing))"
proof -
  define oc1 where "oc1 = oc\<lparr>order_heap := (order_heap oc)[p := (order_heap oc ! p)\<lparr>Status := OrderStatusComplete,
                                                                        Completed := now\<rparr>],
                   bot_heap := (bot_heap oc)[b := (bot_heap oc ! b)\<lparr>Bot_Order := None,
                                                                 Bot_Status := BotStatusIdle\<rparr>],
                   completedOrders := completedOrders oc @ [p]\<rparr>"
  have it: "processOrder_iteration now recv_ticker (b, startTime) oc =
           Some (True, assignOrdersToBots now oc1)"
    unfolding oc1_def using assms(2,4) by (rule processOrder_iteration_completes)
  have f: "Status (order_heap oc1 ! p) = OrderStatusComplete" "Completed (order_heap oc1 ! p) = now"
    "completedOrders oc1 = completedOrders oc @ [p]"
    "Bot_Status (bot_heap oc1 ! b) = BotStatusIdle" "Bot_Order (bot_heap oc1 ! b) = None"
    "pendingOrders oc1 = pendingOrders oc" "bots oc1 = bots oc"
    using assms(1,3) by (simp_all add: oc1_def)
  have nxt: "pendingOrders (assignOrdersToBots now oc1) = q \<and>
            Bot_Order (bot_heap (assignOrdersToBots now oc1) ! b) = Some next_order \<and>
            Bot_Status (bot_heap (assignOrdersToBots now oc1) ! b) = BotStatusProcessing"
    if h: "pendingOrders oc = next_order # q" "distinct (pendingOrders oc)"
      "list_all (\<lambda>x. x < length (order_heap oc)) (pendingOrders oc)"
      "b \<in> set (bots oc)" "distinct (bots oc)"
      "list_all (\<lambda>x. x < length (bot_heap oc)) (bots oc)"
      "list_all (\<lambda>x. x \<noteq> b \<longrightarrow> Bot_Status (bot_heap oc ! x) \<noteq> BotStatusIdle) (bots oc)"
    for next_order q
  proof -
    have idle: "filter (\<lambda>x. Bot_Status (bot_heap oc1 ! x) = BotStatusIdle) (bots oc1) = [b]"
    proof -
      have "filter (\<lambda>x. Bot_Status (bot_heap oc1 ! x) = BotStatusIdle) (bots oc) =
            filter (\<lambda>x. x = b) (bots oc)"
        using h(6,7) assms(1) by (intro filter_cong) (auto simp: oc1_def list_all_iff nth_list_update)
      also have "\<dots> = [b]"
        using h(4,5) by (rule filter_eq_distinct)
      finally show ?thesis by (simp add: f)
    qed
    have pre: "distinct (bots oc1)" "\<forall>x \<in> set (bots oc1). x < length (bot_heap oc1)"
      "distinct (pendingOrders oc1)" "\<forall>x \<in> set (pendingOrders oc1). x < length (order_heap oc1)"
      using h by (simp_all add: oc1_def list_all_iff)
    from assignLoop_result[OF pre, of now, unfolded idle] h(1) f(6)
    show ?thesis by (simp add: assignOrdersToBots_def)
  qed
  show ?thesis unfolding Let_def oc1_def[symmetric] using it f nxt by blast
qed

theorem completion_path_witness:
  "0 < length (bot_heap vip_in_flight) \<and>
   Bot_Order (bot_heap vip_in_flight ! 0) = Some 0 \<and>
   0 < length (order_heap vip_in_flight) \<and>
   duration \<le> 10000000001 - 1 \<and>
   pendingOrders vip_in_flight = 1 # [2] \<and>
   distinct (pendingOrders vip_in_flight) \<and>
   list_all (\<lambda>x. x < length (order_heap vip_in_flight)) (pendingOrders vip_in_flight) \<and>
   0 \<in> set (bots vip_in_flight) \<and> distinct (bots vip_in_flight) \<and>
   list_all (\<lambda>x. x < length (bot_heap vip_in_flight)) (bots vip_in_flight) \<and>
   list_all (\<lambda>x. x \<noteq> 0 \<longrightarrow> Bot_Status (bot_heap vip_in_flight ! x) \<noteq> BotStatusIdle)
     (bots vip_in_flight) \<and>
   map_option (\<lambda>r. (fst r, completedOrders (snd r), pendingOrders (snd r),
                     Status (order_heap (snd r) ! 0), Completed (order_heap (snd r) ! 0),
                     Bot_Status (bot_heap (snd r) ! 0), Bot_Order (bot_heap (snd r) ! 0)))
     (processOrder_iteration 10000000001 recv_ticker (0, 1) vip_in_flight) =
   Some (True, [0], [2], OrderStatusComplete, 10000000001, BotStatusProcessing, Some 1)"
  using completion_path [of 0 vip_in_flight 0 1 10000000001]
  by (simp add: vip_in_flight_def duration_def processOrder_iteration_def
      completeOrderProcessing_def finalizeOrderCompletion_def assignOrdersToBots_def
      assignOrderToBot_def Let_def)

section \<open>The queue as a sorted list\<close>

lemma CreateNormalOrder_split:
  "CreateNormalOrder now oc = assignOrdersToBots now (newNormalOrder now oc)"
  by (simp add: CreateNormalOrder_def newNormalOrder_def Let_def)

lemma CreateVIPOrder_split:
  "CreateVIPOrder now oc = assignOrdersToBots now (newVIPOrder now oc)"
  by (simp add: CreateVIPOrder_def newVIPOrder_def Let_def)

lemma AddBot_split: "AddBot now oc = assignOrdersToBots now (newBot oc)"
  by (simp add: AddBot_def newBot_def Let_def)

lemma sorted_wrt_all: "\<forall>x \<in> set xs. \<forall>y \<in> set xs. R x y \<Longrightarrow> sorted_wrt R xs"
  by (induction xs) auto

lemma partition_sorted:
  "(q = filter P q @ filter (\<lambda>x. \<not> P x) q) = sorted_wrt (\<lambda>x y. P y \<longrightarrow> P x) q"
proof (induction q)
  case Nil
  show ?case by simp
next
  case (Cons x xs)
  show ?case
  proof (cases "P x")
    case True
    then show ?thesis using Cons.IH by simp
  next
    case False
    have n1: "(filter P xs = []) = (\<forall>y \<in> set xs. \<not> P y)"
      by (simp add: filter_empty_conv)
    have n2: "(xs = filter (\<lambda>x. \<not> P x) xs) = (\<forall>y \<in> set xs. \<not> P y)"
      using filter_id_conv[of "\<lambda>x. \<not> P x" xs] by (simp add: eq_commute[of xs])
    have none: "(\<forall>y \<in> set xs. \<not> P y) = (filter P xs = [] \<and> xs = filter (\<lambda>x. \<not> P x) xs)"
      unfolding n1 n2 by simp
    have split: "(x # xs = filter P xs @ x # filter (\<lambda>x. \<not> P x) xs) =
        (filter P xs = [] \<and> xs = filter (\<lambda>x. \<not> P x) xs)"
    proof
      assume eq: "x # xs = filter P xs @ x # filter (\<lambda>x. \<not> P x) xs"
      show "filter P xs = [] \<and> xs = filter (\<lambda>x. \<not> P x) xs"
      proof (cases "filter P xs")
        case Nil
        with eq show ?thesis by simp
      next
        case (Cons y ys)
        then have "y \<in> set (filter P xs)" by simp
        then have "P y" by simp
        moreover from eq Cons have "x = y" by simp
        ultimately show ?thesis using False by simp
      qed
    next
      assume "filter P xs = [] \<and> xs = filter (\<lambda>x. \<not> P x) xs"
      then show "x # xs = filter P xs @ x # filter (\<lambda>x. \<not> P x) xs" by simp
    qed
    have "sorted_wrt (\<lambda>x y. P y \<longrightarrow> P x) xs" if "\<forall>y \<in> set xs. \<not> P y"
      using that by (intro sorted_wrt_all) simp
    then have "(\<forall>y \<in> set xs. \<not> P y) = sorted_wrt (\<lambda>x y. P y \<longrightarrow> P x) (x # xs)"
      using False by auto
    moreover have "(x # xs = filter P (x # xs) @ filter (\<lambda>x. \<not> P x) (x # xs)) =
        (\<forall>y \<in> set xs. \<not> P y)"
      unfolding none using False split by simp
    ultimately show ?thesis by simp
  qed
qed

lemma list_all_list_update: "list_all P xs \<Longrightarrow> P x \<Longrightarrow> list_all P (xs[i := x])"
  by (auto simp: list_all_iff dest: set_update_subset_insert[THEN subsetD])

lemma list_all_nth: "list_all P xs \<Longrightarrow> i < length xs \<Longrightarrow> P (xs ! i)"
  by (simp add: list_all_length)

lemma partitioned_vip_first: "partitioned oc = vip_first (order_heap oc) (pendingOrders oc)"
proof -
  have eq: "(\<lambda>p. Type (order_heap oc ! p) = OrderTypeNormal) =
            (\<lambda>p. \<not> Type (order_heap oc ! p) = OrderTypeVIP)"
    by (simp add: not_VIP_iff)
  show ?thesis
    unfolding partitioned_def class_queue_def vip_first_def eq
    by (rule partition_sorted)
qed

lemma vip_first_cong:
  "\<forall>p \<in> set q. Type (h' ! p) = Type (h ! p) \<Longrightarrow> vip_first h' q = vip_first h q"
  unfolding vip_first_def
  by (auto elim!: sorted_wrt_mono_rel[rotated])

lemma vip_first_drop: "vip_first h q \<Longrightarrow> vip_first h (drop m q)"
  unfolding vip_first_def by (rule sorted_wrt_drop)

lemma vip_first_append_Normal:
  "vip_first h q \<Longrightarrow> Type (h ! x) = OrderTypeNormal \<Longrightarrow> vip_first h (q @ [x])"
  unfolding vip_first_def by (simp add: sorted_wrt_append)

lemma vip_first_prefix:
  assumes "vip_first h q" "k \<le> length q" "0 < k" "Type (h ! (q ! (k - 1))) = OrderTypeVIP"
  shows "\<forall>x \<in> set (take k q). Type (h ! x) = OrderTypeVIP"
proof
  fix x assume "x \<in> set (take k q)"
  then obtain i where i: "i < k" "x = q ! i"
    using assms(2) by (auto simp: in_set_conv_nth)
  show "Type (h ! x) = OrderTypeVIP"
  proof (cases "i = k - 1")
    case True
    then show ?thesis using i assms(4) by simp
  next
    case False
    then have "i < k - 1" "k - 1 < length q" using i assms(2,3) by auto
    from sorted_wrt_nth_less[OF assms(1)[unfolded vip_first_def] this] assms(4) i
    show ?thesis by simp
  qed
qed

lemma vip_first_insert_VIP:
  assumes "vip_first h q" "Type (h ! x) = OrderTypeVIP"
  shows "vip_first h (take (insertIndex_loop h q 0 0) q @ [x] @ drop (insertIndex_loop h q 0 0) q)"
proof -
  define k where "k = insertIndex_loop h q 0 0"
  have kq: "k \<le> length q" unfolding k_def using insertIndex_loop_bounds[of 0 0 h q] by simp
  have tl: "\<forall>p \<in> set (drop k q). Type (h ! p) \<noteq> OrderTypeVIP"
    unfolding k_def using insertIndex_loop_tail[of 0 0 h q] by simp
  have hd: "\<forall>p \<in> set (take k q). Type (h ! p) = OrderTypeVIP"
  proof (cases "k = 0")
    case True
    then show ?thesis by simp
  next
    case False
    then have "Type (h ! (q ! (k - 1))) = OrderTypeVIP"
      unfolding k_def using insertIndex_loop_last[of 0 0 h q] by auto
    with assms(1) kq False show ?thesis by (intro vip_first_prefix) auto
  qed
  have "sorted_wrt (\<lambda>x y. Type (h ! y) = OrderTypeVIP \<longrightarrow> Type (h ! x) = OrderTypeVIP)
          (take k q @ [x] @ drop k q)"
    using assms hd tl
    by (auto simp: sorted_wrt_append vip_first_def intro: sorted_wrt_take sorted_wrt_drop)
  then show ?thesis unfolding vip_first_def k_def .
qed

section \<open>Invariants: the assignment pass\<close>

lemma order_update_assign_fields [simp]:
  "Type (h[p := (h ! p)\<lparr>Status := s, BotID := n, Started := t\<rparr>] ! x) = Type (h ! x)"
  "ID (h[p := (h ! p)\<lparr>Status := s, BotID := n, Started := t\<rparr>] ! x) = ID (h ! x)"
  "Created (h[p := (h ! p)\<lparr>Status := s, BotID := n, Started := t\<rparr>] ! x) = Created (h ! x)"
  by (cases "p < length h"; auto simp: nth_list_update list_update_beyond)+

lemma order_update_complete_fields [simp]:
  "Type (h[p := (h ! p)\<lparr>Status := s, Completed := t\<rparr>] ! x) = Type (h ! x)"
  "ID (h[p := (h ! p)\<lparr>Status := s, Completed := t\<rparr>] ! x) = ID (h ! x)"
  "Created (h[p := (h ! p)\<lparr>Status := s, Completed := t\<rparr>] ! x) = Created (h ! x)"
  "BotID (h[p := (h ! p)\<lparr>Status := s, Completed := t\<rparr>] ! x) = BotID (h ! x)"
  by (cases "p < length h"; auto simp: nth_list_update list_update_beyond)+

lemma bot_update_slot_fields [simp]:
  "Bot_ID (bh[b := (bh ! b)\<lparr>Bot_Order := ord, Bot_Status := s\<rparr>] ! x) = Bot_ID (bh ! x)"
  "stopChan (bh[b := (bh ! b)\<lparr>Bot_Order := ord, Bot_Status := s\<rparr>] ! x) = stopChan (bh ! x)"
  by (cases "b < length bh"; auto simp: nth_list_update list_update_beyond)+

lemma bot_update_chan_fields [simp]:
  "Bot_ID (bh[b := (bh ! b)\<lparr>stopChan := c\<rparr>] ! x) = Bot_ID (bh ! x)"
  "Bot_Order (bh[b := (bh ! b)\<lparr>stopChan := c\<rparr>] ! x) = Bot_Order (bh ! x)"
  by (cases "b < length bh"; auto simp: nth_list_update list_update_beyond)+

lemma valid_ptrs_iff:
  "valid_ptrs oc =
     ((\<forall>p \<in> set (pendingOrders oc). p < length (order_heap oc)) \<and>
      (\<forall>b \<in> set (bots oc). b < length (bot_heap oc)) \<and>
      (\<forall>g \<in> set (goroutines oc). fst g < length (bot_heap oc)) \<and>
      (\<forall>bv \<in> set (bot_heap oc). \<forall>p. Bot_Order bv = Some p \<longrightarrow> p < length (order_heap oc)))"
  by (auto simp: valid_ptrs_def list_all_iff split: option.splits)

lemma in_set_updateD: "y \<in> set (xs[i := x]) \<Longrightarrow> y = x \<or> y \<in> set xs"
  using set_update_subset_insert[of xs i x] by auto

lemma queue_inv_parts:
  assumes "queue_inv oc"
  shows "valid_ptrs oc" "partitioned oc" "pool_unsignalled oc" "sorted_wrt (<) (bots oc)"
    "distinct (bots oc)"
  using assms by (simp_all add: queue_inv_def strict_sorted_iff)

lemma id_inv_parts:
  assumes "id_inv n oc"
  shows "bot_ids_ok oc" "owner_ok oc" "length (bot_heap oc) \<le> n"
  using assms by (simp_all add: id_inv_def)

lemma bot_id_eq:
  assumes "bot_ids_ok oc" "b < length (bot_heap oc)"
  shows "Bot_ID (bot_heap oc ! b) = int b + 1"
proof -
  have "map Bot_ID (bot_heap oc) ! b = map (\<lambda>i. int i + 1) [0..<length (bot_heap oc)] ! b"
    using assms(1) by (simp add: bot_ids_ok_def)
  then show ?thesis using assms(2) by simp
qed

lemma bot_ids_ok_update:
  assumes "bot_ids_ok oc" "Bot_ID bv = Bot_ID (bot_heap oc ! b)"
    "nextBotID oc' = nextBotID oc" "bot_heap oc' = (bot_heap oc)[b := bv]"
  shows "bot_ids_ok oc'"
proof -
  have "map Bot_ID ((bot_heap oc)[b := bv]) = map Bot_ID (bot_heap oc)"
  proof (cases "b < length (bot_heap oc)")
    case True
    then have "(map Bot_ID (bot_heap oc))[b := map Bot_ID (bot_heap oc) ! b] =
               map Bot_ID (bot_heap oc)"
      by (simp only: list_update_id)
    then show ?thesis using assms(2) True by (simp add: map_update)
  next
    case False
    then show ?thesis by (simp add: list_update_beyond)
  qed
  then show ?thesis using assms by (simp add: bot_ids_ok_def)
qed

lemma assignOrderToBot_queue_inv:
  assumes i: "queue_inv oc" and b: "b \<in> set (bots oc)"
  shows "queue_inv (assignOrderToBot now b oc)"
proof (cases "Bot_Status (bot_heap oc ! b) = BotStatusIdle \<and> pendingOrders oc \<noteq> []")
  case False
  then have "assignOrderToBot now b oc = oc" by (intro assignOrderToBot_noop) auto
  with i show ?thesis by simp
next
  case True
  then obtain p q where pq: "pendingOrders oc = p # q" by (cases "pendingOrders oc") auto
  define bv where "bv = (bot_heap oc ! b)\<lparr>Bot_Order := Some p, Bot_Status := BotStatusProcessing\<rparr>"
  define ov where "ov = (order_heap oc ! p)\<lparr>Status := OrderStatusProcessing,
                                        BotID := Bot_ID (bot_heap oc ! b), Started := now\<rparr>"
  define oc1 where "oc1 = assignOrderToBot now b oc"
  have oc1: "oc1 = oc\<lparr>pendingOrders := q, bot_heap := (bot_heap oc)[b := bv],
        order_heap := (order_heap oc)[p := ov], goroutines := goroutines oc @ [(b, now)]\<rparr>"
    unfolding oc1_def bv_def ov_def using True pq by (intro assignOrderToBot_idle_step) auto
  note q = queue_inv_parts[OF i]
  have blt: "b < length (bot_heap oc)" using q(1) b by (simp add: valid_ptrs_iff)
  have plt: "p < length (order_heap oc)" using q(1) pq by (simp add: valid_ptrs_iff)
  have v1: "valid_ptrs oc1"
    using q(1) blt plt pq unfolding valid_ptrs_iff oc1
    by (auto dest!: in_set_updateD simp: bv_def)
  have pa1: "partitioned oc1"
  proof -
    have "vip_first (order_heap oc) q"
      using q(2) pq vip_first_drop[of "order_heap oc" "p # q" 1]
      by (simp add: partitioned_vip_first)
    moreover have "vip_first (order_heap oc1) q = vip_first (order_heap oc) q"
      by (intro vip_first_cong) (simp add: oc1 ov_def)
    ultimately show ?thesis by (simp add: partitioned_vip_first oc1)
  qed
  have un1: "pool_unsignalled oc1"
    using q(3) by (simp add: pool_unsignalled_def oc1 bv_def)
  show ?thesis
    unfolding oc1_def[symmetric] queue_inv_def using v1 pa1 un1 q(4) by (simp add: oc1)
qed

lemma assignOrderToBot_id_inv:
  assumes i: "queue_inv oc" and d: "id_inv n oc" and b: "b \<in> set (bots oc)"
  shows "id_inv n (assignOrderToBot now b oc)"
proof (cases "Bot_Status (bot_heap oc ! b) = BotStatusIdle \<and> pendingOrders oc \<noteq> []")
  case False
  then have "assignOrderToBot now b oc = oc" by (intro assignOrderToBot_noop) auto
  with d show ?thesis by simp
next
  case True
  then obtain p q where pq: "pendingOrders oc = p # q" by (cases "pendingOrders oc") auto
  define bv where "bv = (bot_heap oc ! b)\<lparr>Bot_Order := Some p, Bot_Status := BotStatusProcessing\<rparr>"
  define ov where "ov = (order_heap oc ! p)\<lparr>Status := OrderStatusProcessing,
                                        BotID := Bot_ID (bot_heap oc ! b), Started := now\<rparr>"
  define oc1 where "oc1 = assignOrderToBot now b oc"
  have oc1: "oc1 = oc\<lparr>pendingOrders := q, bot_heap := (bot_heap oc)[b := bv],
        order_heap := (order_heap oc)[p := ov], goroutines := goroutines oc @ [(b, now)]\<rparr>"
    unfolding oc1_def bv_def ov_def using True pq by (intro assignOrderToBot_idle_step) auto
  note q = queue_inv_parts[OF i] and p = id_inv_parts[OF d]
  have blt: "b < length (bot_heap oc)" using q(1) b by (simp add: valid_ptrs_iff)
  have bb: "1 \<le> Bot_ID (bot_heap oc ! b)" using bot_id_eq[OF p(1) blt] by simp
  have ids1: "bot_ids_ok oc1"
    using p(1) by (rule bot_ids_ok_update[where b = b and bv = bv]) (simp_all add: oc1 bv_def)
  have ow1: "owner_ok oc1"
    unfolding owner_ok_def oc1 using p(2) bb
    by (auto intro!: list_all_list_update simp: owner_ok_def ov_def)
  show ?thesis
    unfolding oc1_def[symmetric] id_inv_def using ids1 ow1 p(3) by (simp add: oc1)
qed

lemma assignLoop_queue_inv:
  "queue_inv oc \<Longrightarrow> set bs \<subseteq> set (bots oc) \<Longrightarrow> queue_inv (assignLoop now bs oc)"
proof (induction bs arbitrary: oc)
  case Nil
  then show ?case by simp
next
  case (Cons b bs)
  have "queue_inv (assignOrderToBot now b oc)"
    using Cons.prems by (intro assignOrderToBot_queue_inv) auto
  moreover have "set bs \<subseteq> set (bots (assignOrderToBot now b oc))" using Cons.prems by simp
  ultimately show ?case using Cons.IH by simp
qed

lemma assignLoop_id_inv:
  "queue_inv oc \<Longrightarrow> id_inv n oc \<Longrightarrow> set bs \<subseteq> set (bots oc) \<Longrightarrow>
   id_inv n (assignLoop now bs oc)"
proof (induction bs arbitrary: oc)
  case Nil
  then show ?case by simp
next
  case (Cons b bs)
  have "queue_inv (assignOrderToBot now b oc)"
    using Cons.prems by (intro assignOrderToBot_queue_inv) auto
  moreover have "id_inv n (assignOrderToBot now b oc)"
    using Cons.prems by (intro assignOrderToBot_id_inv) auto
  moreover have "set bs \<subseteq> set (bots (assignOrderToBot now b oc))" using Cons.prems by simp
  ultimately show ?case using Cons.IH by simp
qed

lemma assignOrdersToBots_queue_inv: "queue_inv oc \<Longrightarrow> queue_inv (assignOrdersToBots now oc)"
  unfolding assignOrdersToBots_def by (rule assignLoop_queue_inv) simp_all

lemma assignOrdersToBots_id_inv:
  "queue_inv oc \<Longrightarrow> id_inv n oc \<Longrightarrow> id_inv n (assignOrdersToBots now oc)"
  unfolding assignOrdersToBots_def by (rule assignLoop_id_inv) simp_all

section \<open>Invariants: creating orders and bots\<close>

lemma insertVIPOrder_fields [simp]:
  "order_heap (insertVIPOrder p oc) = order_heap oc"
  "bot_heap (insertVIPOrder p oc) = bot_heap oc"
  "bots (insertVIPOrder p oc) = bots oc"
  "goroutines (insertVIPOrder p oc) = goroutines oc"
  "nextBotID (insertVIPOrder p oc) = nextBotID oc"
  "set (pendingOrders (insertVIPOrder p oc)) = insert p (set (pendingOrders oc))"
proof -
  have "set (take k q @ [p] @ drop k q) = insert p (set q)" for k and q :: "order_ptr list"
    using set_append[of "take k q" "drop k q"] by (simp del: set_append) auto
  then show "set (pendingOrders (insertVIPOrder p oc)) = insert p (set (pendingOrders oc))"
    by (simp add: insertVIPOrder_def Let_def)
qed (simp_all add: insertVIPOrder_def Let_def)

lemma newNormalOrder_queue_inv:
  assumes i: "queue_inv oc"
  shows "queue_inv (newNormalOrder now oc)"
proof -
  note q = queue_inv_parts[OF i]
  define h' where "h' = order_heap (newNormalOrder now oc)"
  have h': "h' = order_heap oc @ [\<lparr>ID = wrap64 (atomic_AddInt64 (nextOrderID oc) 1 - 1),
      Type = OrderTypeNormal, Status = OrderStatusPending, BotID = 0, Created = now,
      Started = 0, Completed = 0\<rparr>]"
    by (simp add: h'_def newNormalOrder_def)
  have old: "\<forall>x \<in> set (pendingOrders oc). Type (h' ! x) = Type (order_heap oc ! x)"
    using q(1) by (auto simp: valid_ptrs_iff h' nth_append)
  have v: "valid_ptrs (newNormalOrder now oc)"
    using q(1) unfolding valid_ptrs_iff by (fastforce simp: newNormalOrder_def)
  have "vip_first h' (pendingOrders oc)"
    using q(2) vip_first_cong[OF old] by (simp add: partitioned_vip_first)
  then have "vip_first h' (pendingOrders oc @ [length (order_heap oc)])"
    by (rule vip_first_append_Normal) (simp add: h')
  then have pa: "partitioned (newNormalOrder now oc)"
    unfolding partitioned_vip_first h'_def by (simp add: newNormalOrder_def)
  have un: "pool_unsignalled (newNormalOrder now oc)"
    using q(3) by (simp add: pool_unsignalled_def newNormalOrder_def)
  show ?thesis unfolding queue_inv_def using v pa un q(4) by (simp add: newNormalOrder_def)
qed

lemma newNormalOrder_id_inv:
  assumes d: "id_inv n oc"
  shows "id_inv n (newNormalOrder now oc)"
  using d by (simp add: id_inv_def bot_ids_ok_def owner_ok_def newNormalOrder_def)

lemma newVIPOrder_queue_inv:
  assumes i: "queue_inv oc"
  shows "queue_inv (newVIPOrder now oc)"
proof -
  note q = queue_inv_parts[OF i]
  define oc0 where "oc0 = oc\<lparr>nextOrderID := atomic_AddInt64 (nextOrderID oc) 1,
           order_heap := order_heap oc @
             [\<lparr>ID = wrap64 (atomic_AddInt64 (nextOrderID oc) 1 - 1), Type = OrderTypeVIP,
               Status = OrderStatusPending, BotID = 0, Created = now, Started = 0, Completed = 0\<rparr>],
           orders := orders oc @ [length (order_heap oc)]\<rparr>"
  define new where "new = length (order_heap oc)"
  have res: "newVIPOrder now oc = insertVIPOrder new oc0"
    by (simp add: newVIPOrder_def oc0_def new_def)
  have old: "\<forall>x \<in> set (pendingOrders oc). Type (order_heap oc0 ! x) = Type (order_heap oc ! x)"
    using q(1) by (auto simp: valid_ptrs_iff oc0_def nth_append)
  have v: "valid_ptrs (insertVIPOrder new oc0)"
    using q(1) unfolding valid_ptrs_iff by (fastforce simp: oc0_def new_def)
  have "vip_first (order_heap oc0) (pendingOrders oc0)"
    using q(2) vip_first_cong[OF old] by (simp add: partitioned_vip_first oc0_def)
  then have pa: "partitioned (insertVIPOrder new oc0)"
    unfolding partitioned_vip_first
    by (simp add: insertVIPOrder_def Let_def del: append_Cons append_Nil)
       (rule vip_first_insert_VIP, simp_all add: oc0_def new_def)
  have un: "pool_unsignalled (insertVIPOrder new oc0)"
    using q(3) by (simp add: pool_unsignalled_def oc0_def)
  show ?thesis unfolding queue_inv_def res using v pa un q(4) by (simp add: oc0_def)
qed

lemma newVIPOrder_id_inv:
  assumes d: "id_inv n oc"
  shows "id_inv n (newVIPOrder now oc)"
  using d by (simp add: id_inv_def bot_ids_ok_def owner_ok_def newVIPOrder_def)

lemma wrap64_id: "- (2 ^ 63) \<le> x \<Longrightarrow> x < 2 ^ 63 \<Longrightarrow> wrap64 x = x"
  by (simp add: wrap64_def)

lemma newBot_queue_inv:
  assumes i: "queue_inv oc"
  shows "queue_inv (newBot oc)"
proof -
  note q = queue_inv_parts[OF i]
  define nb where "nb = \<lparr>Bot_ID = wrap64 (atomic_AddInt64 (nextBotID oc) 1 - 1),
            Bot_Status = BotStatusIdle, Bot_Order = None, stopChan = []\<rparr>"
  have res: "newBot oc = oc\<lparr>nextBotID := atomic_AddInt64 (nextBotID oc) 1,
        bot_heap := bot_heap oc @ [nb], bots := bots oc @ [length (bot_heap oc)]\<rparr>"
    by (simp add: newBot_def nb_def)
  have old: "\<forall>b \<in> set (bots oc). (bot_heap oc @ [nb]) ! b = bot_heap oc ! b"
    using q(1) by (auto simp: valid_ptrs_iff nth_append)
  have v: "valid_ptrs (newBot oc)"
    using q(1) unfolding valid_ptrs_iff res by (fastforce simp: nb_def)
  have pa: "partitioned (newBot oc)"
    using q(2) by (simp add: partitioned_vip_first res)
  have un: "pool_unsignalled (newBot oc)"
    using q(3) old by (simp add: pool_unsignalled_def res list_all_iff nb_def)
  have di: "sorted_wrt (<) (bots (newBot oc))"
    using q(1,4) by (auto simp: res valid_ptrs_iff sorted_wrt_append)
  show ?thesis unfolding queue_inv_def using v pa un di by simp
qed

lemma newBot_id_inv:
  assumes d: "id_inv n oc" and bound: "int n + 2 < 2 ^ 63"
  shows "id_inv (Suc n) (newBot oc)"
proof -
  note p = id_inv_parts[OF d]
  define nb where "nb = \<lparr>Bot_ID = nextBotID oc, Bot_Status = BotStatusIdle,
            Bot_Order = None, stopChan = []\<rparr>"
  have nx: "nextBotID oc = int (length (bot_heap oc)) + 1"
    using p(1) by (simp add: bot_ids_ok_def)
  have cnt: "atomic_AddInt64 (nextBotID oc) 1 = nextBotID oc + 1"
    unfolding atomic_AddInt64_def using nx p(3) bound by (intro wrap64_id) auto
  have id: "wrap64 (nextBotID oc) = nextBotID oc"
    using nx p(3) bound by (intro wrap64_id) auto
  have res: "newBot oc = oc\<lparr>nextBotID := nextBotID oc + 1, bot_heap := bot_heap oc @ [nb],
        bots := bots oc @ [length (bot_heap oc)]\<rparr>"
    by (simp add: newBot_def cnt id nb_def)
  have ids: "bot_ids_ok (newBot oc)"
    using p(1) by (simp add: bot_ids_ok_def res nb_def)
  have ow: "owner_ok (newBot oc)"
    using p(2) by (simp add: owner_ok_def res)
  show ?thesis unfolding id_inv_def using ids ow p(3) by (simp add: res)
qed

lemma id_inv_mono: "id_inv n oc \<Longrightarrow> n \<le> m \<Longrightarrow> id_inv m oc"
  by (simp add: id_inv_def)

section \<open>Invariants: removing a bot\<close>

lemma RemoveBot_empty: "bots oc = [] \<Longrightarrow> RemoveBot now oc = Some oc"
  by (simp add: RemoveBot_def removeBotFromList_def)

lemma RemoveBot_idle:
  assumes "bots oc = bs @ [b]"
    "\<not> (Bot_Status (bot_heap oc ! b) = BotStatusProcessing \<and> Bot_Order (bot_heap oc ! b) \<noteq> None)"
  shows "RemoveBot now oc = Some (assignOrdersToBots now (oc\<lparr>bots := bs\<rparr>))"
  using assms
  by (auto simp: RemoveBot_def removeBotFromList_def stopBotProcessing_def
      handleIdleBotRemoval_def Let_def)

lemma queue_inv_drop_bot:
  assumes i: "queue_inv oc" and bs: "bots oc = bs @ [b]"
  shows "queue_inv (oc\<lparr>bots := bs\<rparr>)"
proof -
  note q = queue_inv_parts[OF i]
  have "valid_ptrs (oc\<lparr>bots := bs\<rparr>)" using q(1) bs by (simp add: valid_ptrs_iff)
  moreover have "partitioned (oc\<lparr>bots := bs\<rparr>)" using q(2) by (simp add: partitioned_vip_first)
  moreover have "pool_unsignalled (oc\<lparr>bots := bs\<rparr>)"
    using q(3) bs by (simp add: pool_unsignalled_def)
  ultimately show ?thesis unfolding queue_inv_def using q(4) bs by (simp add: sorted_wrt_append)
qed

lemma id_inv_drop_bot:
  assumes d: "id_inv n oc" and bs: "bots oc = bs @ [b]"
  shows "id_inv n (oc\<lparr>bots := bs\<rparr>)"
  using d bs by (simp add: id_inv_def bot_ids_ok_def owner_ok_def)

lemma queue_inv_requeue:
  assumes i: "queue_inv oc" and bs: "bots oc = bs @ [b]"
    and po: "Bot_Order (bot_heap oc ! b) = Some p"
  shows "queue_inv (insertOrderToPending p
       (oc\<lparr>bots := bs,
           bot_heap := (bot_heap oc)[b := (bot_heap oc ! b)\<lparr>stopChan := [True]\<rparr>],
           order_heap := (order_heap oc)[p := (order_heap oc ! p)\<lparr>Status := OrderStatusPending,
                                                                   BotID := 0\<rparr>]\<rparr>))"
proof -
  note q = queue_inv_parts[OF i]
  define oc2 where "oc2 = oc\<lparr>bots := bs,
           bot_heap := (bot_heap oc)[b := (bot_heap oc ! b)\<lparr>stopChan := [True]\<rparr>],
           order_heap := (order_heap oc)[p := (order_heap oc ! p)\<lparr>Status := OrderStatusPending,
                                                                   BotID := 0\<rparr>]\<rparr>"
  define oc3 where "oc3 = insertOrderToPending p oc2"
  have blt: "b < length (bot_heap oc)" using q(1) bs by (simp add: valid_ptrs_iff)
  have plt: "p < length (order_heap oc)"
    using q(1) blt po nth_mem[OF blt] unfolding valid_ptrs_iff by blast
  have ne: "\<forall>x \<in> set bs. b \<noteq> x" using q(5) bs by auto
  have pend: "set (pendingOrders oc3) = insert p (set (pendingOrders oc))"
    unfolding oc3_def insertOrderToPending_def
    by (auto simp: oc2_def split: OrderType.split)
  have v: "valid_ptrs oc3"
    using q(1) bs plt pend po unfolding valid_ptrs_iff
    by (auto simp: oc3_def oc2_def dest!: in_set_updateD)
  have ty: "\<forall>x. Type (order_heap oc2 ! x) = Type (order_heap oc ! x)"
    by (simp add: oc2_def)
  have vf: "vip_first (order_heap oc2) (pendingOrders oc2)"
    using q(2) vip_first_cong[of "pendingOrders oc" "order_heap oc2" "order_heap oc"] ty
    by (simp add: partitioned_vip_first oc2_def)
  have pa: "partitioned oc3"
  proof (cases "Type (order_heap oc2 ! p)")
    case OrderTypeNormal
    then have "pendingOrders oc3 = pendingOrders oc2 @ [p]"
      by (simp add: oc3_def insertOrderToPending_def)
    with vf OrderTypeNormal show ?thesis
      by (simp add: partitioned_vip_first oc3_def vip_first_append_Normal)
  next
    case OrderTypeVIP
    then have "pendingOrders oc3 =
        take (insertIndex_loop (order_heap oc2) (pendingOrders oc2) 0 0) (pendingOrders oc2) @ [p] @
        drop (insertIndex_loop (order_heap oc2) (pendingOrders oc2) 0 0) (pendingOrders oc2)"
      by (simp add: oc3_def insertOrderToPending_def insertVIPOrder_def Let_def)
    with vip_first_insert_VIP[OF vf OrderTypeVIP] show ?thesis
      by (simp add: partitioned_vip_first oc3_def)
  qed
  have un: "pool_unsignalled oc3"
    using q(3) bs ne
    by (simp add: pool_unsignalled_def oc3_def oc2_def list_all_iff)
  show ?thesis
    unfolding oc2_def[symmetric] oc3_def[symmetric] queue_inv_def
    using v pa un q(4) bs by (simp add: oc3_def oc2_def sorted_wrt_append)
qed

lemma id_inv_requeue:
  assumes d: "id_inv n oc" and bs: "bots oc = bs @ [b]"
  shows "id_inv n (insertOrderToPending p
       (oc\<lparr>bots := bs,
           bot_heap := (bot_heap oc)[b := (bot_heap oc ! b)\<lparr>stopChan := [True]\<rparr>],
           order_heap := (order_heap oc)[p := (order_heap oc ! p)\<lparr>Status := OrderStatusPending,
                                                                   BotID := 0\<rparr>]\<rparr>))"
proof -
  note p = id_inv_parts[OF d]
  define oc3 where "oc3 = insertOrderToPending p
       (oc\<lparr>bots := bs,
           bot_heap := (bot_heap oc)[b := (bot_heap oc ! b)\<lparr>stopChan := [True]\<rparr>],
           order_heap := (order_heap oc)[p := (order_heap oc ! p)\<lparr>Status := OrderStatusPending,
                                                                   BotID := 0\<rparr>]\<rparr>)"
  have "bot_ids_ok (oc\<lparr>bot_heap := (bot_heap oc)[b := (bot_heap oc ! b)\<lparr>stopChan := [True]\<rparr>]\<rparr>)"
    using p(1) by (rule bot_ids_ok_update[where b = b]) simp_all
  then have ids: "bot_ids_ok oc3"
    by (simp add: bot_ids_ok_def oc3_def)
  have ow: "owner_ok oc3"
    using p(2) unfolding owner_ok_def oc3_def
    by (auto intro!: list_all_list_update)
  show ?thesis
    unfolding oc3_def[symmetric] id_inv_def using ids ow p(3) by (simp add: oc3_def)
qed

lemma RemoveBot_cases:
  assumes i: "queue_inv oc"
  shows "(bots oc = [] \<and> RemoveBot now oc = Some oc) \<or>
     (\<exists>bs b. bots oc = bs @ [b] \<and>
        \<not> (Bot_Status (bot_heap oc ! b) = BotStatusProcessing \<and> Bot_Order (bot_heap oc ! b) \<noteq> None) \<and>
        RemoveBot now oc = Some (assignOrdersToBots now (oc\<lparr>bots := bs\<rparr>))) \<or>
     (\<exists>bs b p. bots oc = bs @ [b] \<and> Bot_Order (bot_heap oc ! b) = Some p \<and>
        Bot_Status (bot_heap oc ! b) = BotStatusProcessing \<and>
        RemoveBot now oc = Some (assignOrdersToBots now (insertOrderToPending p
          (oc\<lparr>bots := bs,
              bot_heap := (bot_heap oc)[b := (bot_heap oc ! b)\<lparr>stopChan := [True]\<rparr>],
              order_heap := (order_heap oc)[p := (order_heap oc ! p)\<lparr>Status := OrderStatusPending,
                                                                      BotID := 0\<rparr>]\<rparr>))))"
proof (cases "bots oc" rule: rev_cases)
  case Nil
  then show ?thesis by (simp add: RemoveBot_empty)
next
  case (snoc bs b)
  show ?thesis
  proof (cases "Bot_Status (bot_heap oc ! b) = BotStatusProcessing \<and>
                Bot_Order (bot_heap oc ! b) \<noteq> None")
    case False
    then show ?thesis using RemoveBot_idle[OF snoc False, of now] snoc by blast
  next
    case True
    then obtain p where po: "Bot_Order (bot_heap oc ! b) = Some p" by auto
    have sc: "stopChan (bot_heap oc ! b) = []"
      using queue_inv_parts(3)[OF i] snoc by (simp add: pool_unsignalled_def)
    from RemoveBot_processing[OF snoc _ po sc, of now] True snoc po
    show ?thesis by blast
  qed
qed

lemma RemoveBot_queue_inv:
  assumes i: "queue_inv oc"
  shows "\<exists>oc'. RemoveBot now oc = Some oc' \<and> queue_inv oc' \<and> bots oc' = butlast (bots oc)"
  using RemoveBot_cases[OF i, of now]
proof (elim disjE exE conjE)
  assume "bots oc = []" "RemoveBot now oc = Some oc"
  then show ?thesis using i by simp
next
  fix bs b
  assume bs: "bots oc = bs @ [b]"
    and rm: "RemoveBot now oc = Some (assignOrdersToBots now (oc\<lparr>bots := bs\<rparr>))"
  have "queue_inv (assignOrdersToBots now (oc\<lparr>bots := bs\<rparr>))"
    using queue_inv_drop_bot[OF i bs] by (rule assignOrdersToBots_queue_inv)
  then show ?thesis using rm bs by (simp add: assignOrdersToBots_def)
next
  fix bs b p
  assume bs: "bots oc = bs @ [b]" and po: "Bot_Order (bot_heap oc ! b) = Some p"
    and rm: "RemoveBot now oc = Some (assignOrdersToBots now (insertOrderToPending p
          (oc\<lparr>bots := bs,
              bot_heap := (bot_heap oc)[b := (bot_heap oc ! b)\<lparr>stopChan := [True]\<rparr>],
              order_heap := (order_heap oc)[p := (order_heap oc ! p)\<lparr>Status := OrderStatusPending,
                                                                      BotID := 0\<rparr>]\<rparr>)))"
  show ?thesis
    unfolding rm using assignOrdersToBots_queue_inv[OF queue_inv_requeue[OF i bs po], of now] bs
    by (simp add: assignOrdersToBots_def)
qed

lemma RemoveBot_id_inv:
  assumes i: "queue_inv oc" and d: "id_inv n oc" and rm: "RemoveBot now oc = Some oc'"
  shows "id_inv n oc'"
  using RemoveBot_cases[OF i, of now]
proof (elim disjE exE conjE)
  assume "bots oc = []" "RemoveBot now oc = Some oc"
  then show ?thesis using d rm by simp
next
  fix bs b
  assume bs: "bots oc = bs @ [b]"
    and rm': "RemoveBot now oc = Some (assignOrdersToBots now (oc\<lparr>bots := bs\<rparr>))"
  have "id_inv n (assignOrdersToBots now (oc\<lparr>bots := bs\<rparr>))"
    using queue_inv_drop_bot[OF i bs] id_inv_drop_bot[OF d bs]
    by (rule assignOrdersToBots_id_inv)
  then show ?thesis using rm rm' by simp
next
  fix bs b p
  assume bs: "bots oc = bs @ [b]" and po: "Bot_Order (bot_heap oc ! b) = Some p"
    and rm': "RemoveBot now oc = Some (assignOrdersToBots now (insertOrderToPending p
          (oc\<lparr>bots := bs,
              bot_heap := (bot_heap oc)[b := (bot_heap oc ! b)\<lparr>stopChan := [True]\<rparr>],
              order_heap := (order_heap oc)[p := (order_heap oc ! p)\<lparr>Status := OrderStatusPending,
                                                                      BotID := 0\<rparr>]\<rparr>)))"
  show ?thesis
    using rm unfolding rm'
    using assignOrdersToBots_id_inv[OF queue_inv_requeue[OF i bs po]
        id_inv_requeue[OF d bs, of p], of now]
    by simp
qed

section \<open>Invariants: the goroutines\<close>

lemma queue_inv_goroutines:
  "queue_inv oc \<Longrightarrow> set gs \<subseteq> set (goroutines oc) \<Longrightarrow> queue_inv (oc\<lparr>goroutines := gs\<rparr>)"
  unfolding queue_inv_def valid_ptrs_iff partitioned_vip_first pool_unsignalled_def
  by auto

lemma id_inv_goroutines: "id_inv n oc \<Longrightarrow> id_inv n (oc\<lparr>goroutines := gs\<rparr>)"
  unfolding id_inv_def bot_ids_ok_def owner_ok_def by simp

lemma queue_inv_received:
  assumes i: "queue_inv oc" and sc: "stopChan (bot_heap oc ! b) = v # buf"
  shows "queue_inv (oc\<lparr>bot_heap := (bot_heap oc)[b := (bot_heap oc ! b)\<lparr>stopChan := buf\<rparr>]\<rparr>)"
proof -
  note q = queue_inv_parts[OF i]
  define oc1 where "oc1 = oc\<lparr>bot_heap := (bot_heap oc)[b := (bot_heap oc ! b)\<lparr>stopChan := buf\<rparr>]\<rparr>"
  have ne: "\<forall>x \<in> set (bots oc). b \<noteq> x"
    using q(3) sc by (auto simp: pool_unsignalled_def list_all_iff)
  have v: "valid_ptrs oc1"
  proof (cases "b < length (bot_heap oc)")
    case True
    from q(1) nth_mem[OF True] show ?thesis
      unfolding valid_ptrs_iff by (auto simp: oc1_def dest!: in_set_updateD)
  next
    case False
    then show ?thesis using q(1) by (simp add: oc1_def valid_ptrs_iff list_update_beyond)
  qed
  have pa: "partitioned oc1" using q(2) by (simp add: partitioned_vip_first oc1_def)
  have un: "pool_unsignalled oc1"
    using q(3) ne by (simp add: pool_unsignalled_def oc1_def list_all_iff)
  show ?thesis unfolding oc1_def[symmetric] queue_inv_def using v pa un q(4) by (simp add: oc1_def)
qed

lemma id_inv_received:
  assumes d: "id_inv n oc"
  shows "id_inv n (oc\<lparr>bot_heap := (bot_heap oc)[b := (bot_heap oc ! b)\<lparr>stopChan := buf\<rparr>]\<rparr>)"
proof -
  note p = id_inv_parts[OF d]
  have "bot_ids_ok (oc\<lparr>bot_heap := (bot_heap oc)[b := (bot_heap oc ! b)\<lparr>stopChan := buf\<rparr>]\<rparr>)"
    using p(1) by (rule bot_ids_ok_update[where b = b]) simp_all
  then show ?thesis using p by (simp add: id_inv_def owner_ok_def)
qed

lemma queue_inv_completed:
  assumes i: "queue_inv oc"
  shows "queue_inv (oc\<lparr>order_heap := (order_heap oc)[p := (order_heap oc ! p)\<lparr>Status := OrderStatusComplete,
                                                                   Completed := now\<rparr>],
           bot_heap := (bot_heap oc)[b := (bot_heap oc ! b)\<lparr>Bot_Order := None,
                                                            Bot_Status := BotStatusIdle\<rparr>],
           completedOrders := completedOrders oc @ [p]\<rparr>)"
proof -
  note q = queue_inv_parts[OF i]
  define oc1 where "oc1 = oc\<lparr>order_heap := (order_heap oc)[p := (order_heap oc ! p)\<lparr>Status := OrderStatusComplete,
                                                                   Completed := now\<rparr>],
           bot_heap := (bot_heap oc)[b := (bot_heap oc ! b)\<lparr>Bot_Order := None,
                                                            Bot_Status := BotStatusIdle\<rparr>],
           completedOrders := completedOrders oc @ [p]\<rparr>"
  have v: "valid_ptrs oc1"
    using q(1) unfolding valid_ptrs_iff by (auto simp: oc1_def dest!: in_set_updateD)
  have "vip_first (order_heap oc1) (pendingOrders oc) = vip_first (order_heap oc) (pendingOrders oc)"
    by (intro vip_first_cong) (simp add: oc1_def)
  then have pa: "partitioned oc1" using q(2) by (simp add: partitioned_vip_first oc1_def)
  have un: "pool_unsignalled oc1"
    using q(3) by (simp add: pool_unsignalled_def oc1_def)
  show ?thesis unfolding oc1_def[symmetric] queue_inv_def using v pa un q(4) by (simp add: oc1_def)
qed

lemma id_inv_completed:
  assumes d: "id_inv n oc"
  shows "id_inv n (oc\<lparr>order_heap := (order_heap oc)[p := (order_heap oc ! p)\<lparr>Status := OrderStatusComplete,
                                                                   Completed := now\<rparr>],
           bot_heap := (bot_heap oc)[b := (bot_heap oc ! b)\<lparr>Bot_Order := None,
                                                            Bot_Status := BotStatusIdle\<rparr>],
           completedOrders := completedOrders oc @ [p]\<rparr>)"
proof -
  note p = id_inv_parts[OF d]
  define oc1 where "oc1 = oc\<lparr>order_heap := (order_heap oc)[p := (order_heap oc ! p)\<lparr>Status := OrderStatusComplete,
                                                                   Completed := now\<rparr>],
           bot_heap := (bot_heap oc)[b := (bot_heap oc ! b)\<lparr>Bot_Order := None,
                                                            Bot_Status := BotStatusIdle\<rparr>],
           completedOrders := completedOrders oc @ [p]\<rparr>"
  have ids: "bot_ids_ok oc1"
    using p(1) by (rule bot_ids_ok_update[where b = b]) (simp_all add: oc1_def)
  have ow: "owner_ok oc1"
    using p(2) unfolding owner_ok_def oc1_def by (auto intro!: list_all_list_update)
  show ?thesis unfolding oc1_def[symmetric] id_inv_def using ids ow p(3) by (simp add: oc1_def)
qed

lemma assignOrderToBot_goroutines_grow:
  "set (goroutines oc) \<subseteq> set (goroutines (assignOrderToBot now b oc))"
  by (auto simp: assignOrderToBot_def Let_def)

lemma assignLoop_goroutines_grow:
  "set (goroutines oc) \<subseteq> set (goroutines (assignLoop now bs oc))"
proof (induction bs arbitrary: oc)
  case Nil
  show ?case by simp
next
  case (Cons b bs)
  show ?case using assignOrderToBot_goroutines_grow[of oc now b] Cons.IH[of "assignOrderToBot now b oc"]
    by auto
qed

text \<open>The three ways an iteration of a goroutine ends.\<close>

lemma processOrder_iteration_cases:
  assumes it: "processOrder_iteration now c g oc = Some (r, oc1)"
  shows "(\<not> r \<and> oc1 = oc) \<or> (r \<and> oc1 = oc) \<or>
     (\<exists>v buf. r \<and> c = recv_stopChan \<and> stopChan (bot_heap oc ! fst g) = v # buf \<and>
        oc1 = oc\<lparr>bot_heap := (bot_heap oc)[fst g := (bot_heap oc ! fst g)\<lparr>stopChan := buf\<rparr>]\<rparr>) \<or>
     (\<exists>p. r \<and> c = recv_ticker \<and> duration \<le> now - snd g \<and>
        Bot_Order (bot_heap oc ! fst g) = Some p \<and>
        oc1 = assignOrdersToBots now
          (oc\<lparr>order_heap := (order_heap oc)[p := (order_heap oc ! p)\<lparr>Status := OrderStatusComplete,
                                                                     Completed := now\<rparr>],
              bot_heap := (bot_heap oc)[fst g := (bot_heap oc ! fst g)\<lparr>Bot_Order := None,
                                                               Bot_Status := BotStatusIdle\<rparr>],
              completedOrders := completedOrders oc @ [p]\<rparr>))"
proof (cases c)
  case recv_stopChan
  with it show ?thesis
    by (auto simp: processOrder_iteration_def Let_def split: list.splits)
next
  case recv_ticker
  show ?thesis
  proof (cases "duration \<le> now - snd g")
    case False
    with it recv_ticker show ?thesis by (simp add: processOrder_iteration_def Let_def)
  next
    case True
    show ?thesis
    proof (cases "Bot_Order (bot_heap oc ! fst g)")
      case None
      with it recv_ticker True show ?thesis
        by (simp add: processOrder_iteration_def completeOrderProcessing_def Let_def)
    next
      case (Some p)
      from processOrder_iteration_completes[where oc = oc and b = "fst g" and p = p
          and startTime = "snd g" and now = now] Some True it recv_ticker
      show ?thesis by simp
    qed
  qed
qed

lemma processOrder_iteration_inv:
  assumes i: "queue_inv oc" and it: "processOrder_iteration now c g oc = Some (r, oc1)"
  shows "queue_inv oc1 \<and> (id_inv n oc \<longrightarrow> id_inv n oc1)"
  using processOrder_iteration_cases[OF it]
proof (elim disjE exE conjE)
  fix v buf
  assume sc: "stopChan (bot_heap oc ! fst g) = v # buf"
    and oc1: "oc1 = oc\<lparr>bot_heap := (bot_heap oc)[fst g := (bot_heap oc ! fst g)\<lparr>stopChan := buf\<rparr>]\<rparr>"
  show ?thesis unfolding oc1 using queue_inv_received[OF i sc] id_inv_received[of n oc] by blast
next
  fix p
  assume oc1: "oc1 = assignOrdersToBots now
          (oc\<lparr>order_heap := (order_heap oc)[p := (order_heap oc ! p)\<lparr>Status := OrderStatusComplete,
                                                                     Completed := now\<rparr>],
              bot_heap := (bot_heap oc)[fst g := (bot_heap oc ! fst g)\<lparr>Bot_Order := None,
                                                               Bot_Status := BotStatusIdle\<rparr>],
              completedOrders := completedOrders oc @ [p]\<rparr>)"
  show ?thesis unfolding oc1
    using assignOrdersToBots_queue_inv[OF queue_inv_completed[OF i]]
      assignOrdersToBots_id_inv[OF queue_inv_completed[OF i] id_inv_completed]
    by blast
qed (use i in simp_all)

lemma goroutine_step_inv:
  assumes i: "queue_inv oc" and st: "goroutine_step now i c oc = Some oc'"
  shows "queue_inv oc' \<and> (id_inv n oc \<longrightarrow> id_inv n oc')"
proof -
  from st obtain r oc1 where
    it: "processOrder_iteration now c (goroutines oc ! i) oc = Some (r, oc1)"
    and oc': "oc' = (if r then oc1\<lparr>goroutines := take i (goroutines oc1) @ drop (i + 1) (goroutines oc1)\<rparr>
                     else oc1)"
    by (auto simp: goroutine_step_def split: if_splits option.splits)
  note a = processOrder_iteration_inv[OF i it, of n]
  have sub: "set (take i (goroutines oc1) @ drop (i + 1) (goroutines oc1)) \<subseteq> set (goroutines oc1)"
    by (auto dest: in_set_takeD in_set_dropD)
  show ?thesis
    unfolding oc' using a queue_inv_goroutines[OF _ sub] id_inv_goroutines[of n oc1]
    by auto
qed

section \<open>Invariants of every run\<close>

lemma queue_inv_init: "queue_inv NewOrderController"
  by (simp add: queue_inv_def valid_ptrs_def partitioned_def class_queue_def pool_unsignalled_def
      NewOrderController_def)

lemma id_inv_init: "id_inv 0 NewOrderController"
  by (simp add: id_inv_def bot_ids_ok_def owner_ok_def NewOrderController_def)

lemma step_queue_inv:
  assumes i: "queue_inv oc" and st: "step e oc = Some oc'"
  shows "queue_inv oc'"
proof (cases e)
  case (EvCreateNormalOrder now)
  then show ?thesis
    using st assignOrdersToBots_queue_inv[OF newNormalOrder_queue_inv[OF i]]
    by (auto simp: CreateNormalOrder_split)
next
  case (EvCreateVIPOrder now)
  then show ?thesis
    using st assignOrdersToBots_queue_inv[OF newVIPOrder_queue_inv[OF i]]
    by (auto simp: CreateVIPOrder_split)
next
  case (EvAddBot now)
  then show ?thesis
    using st assignOrdersToBots_queue_inv[OF newBot_queue_inv[OF i]]
    by (auto simp: AddBot_split)
next
  case (EvRemoveBot now)
  then show ?thesis using st RemoveBot_queue_inv[OF i, of now] by auto
next
  case (EvWait now)
  then show ?thesis using st assignOrdersToBots_queue_inv[OF i] by (auto simp: Wait_def)
next
  case (EvGoroutine now k c)
  then show ?thesis using st goroutine_step_inv[OF i, of now k c oc'] by auto
qed

lemma step_id_inv:
  assumes i: "queue_inv oc" and d: "id_inv n oc" and st: "step e oc = Some oc'"
    and bound: "int n + 2 < 2 ^ 63"
  shows "id_inv (Suc n) oc'"
proof (cases e)
  case (EvCreateNormalOrder now)
  have "id_inv n oc'"
    using EvCreateNormalOrder st
      assignOrdersToBots_id_inv[OF newNormalOrder_queue_inv[OF i] newNormalOrder_id_inv[OF d]]
    by (auto simp: CreateNormalOrder_split)
  then show ?thesis by (rule id_inv_mono) simp
next
  case (EvCreateVIPOrder now)
  have "id_inv n oc'"
    using EvCreateVIPOrder st
      assignOrdersToBots_id_inv[OF newVIPOrder_queue_inv[OF i] newVIPOrder_id_inv[OF d]]
    by (auto simp: CreateVIPOrder_split)
  then show ?thesis by (rule id_inv_mono) simp
next
  case (EvAddBot now)
  then show ?thesis
    using st assignOrdersToBots_id_inv[OF newBot_queue_inv[OF i] newBot_id_inv[OF d bound]]
    by (auto simp: AddBot_split)
next
  case (EvRemoveBot now)
  have "id_inv n oc'" using EvRemoveBot st RemoveBot_id_inv[OF i d, of now oc'] by auto
  then show ?thesis by (rule id_inv_mono) simp
next
  case (EvWait now)
  have "id_inv n oc'" using EvWait st assignOrdersToBots_id_inv[OF i d] by (auto simp: Wait_def)
  then show ?thesis by (rule id_inv_mono) simp
next
  case (EvGoroutine now k c)
  have "id_inv n oc'" using EvGoroutine st goroutine_step_inv[OF i, of now k c oc' n] d by auto
  then show ?thesis by (rule id_inv_mono) simp
qed

lemma run_queue_inv: "queue_inv oc \<Longrightarrow> run evs oc = Some oc' \<Longrightarrow> queue_inv oc'"
proof (induction evs arbitrary: oc)
  case Nil
  then show ?case by simp
next
  case (Cons e es)
  then obtain oc1 where 1: "step e oc = Some oc1" "run es oc1 = Some oc'"
    by (auto split: option.splits)
  from Cons.IH[OF step_queue_inv[OF Cons.prems(1) 1(1)] 1(2)] show ?case .
qed

lemma run_id_inv:
  "queue_inv oc \<Longrightarrow> id_inv n oc \<Longrightarrow> run evs oc = Some oc' \<Longrightarrow>
   int (n + length evs) + 1 < 2 ^ 63 \<Longrightarrow> id_inv (n + length evs) oc'"
proof (induction evs arbitrary: oc n)
  case Nil
  then show ?case by simp
next
  case (Cons e es)
  then obtain oc1 where 1: "step e oc = Some oc1" "run es oc1 = Some oc'"
    by (auto split: option.splits)
  have b: "int n + 2 < 2 ^ 63" using Cons.prems(4) by simp
  have q1: "queue_inv oc1" using step_queue_inv[OF Cons.prems(1) 1(1)] .
  have d1: "id_inv (Suc n) oc1" using step_id_inv[OF Cons.prems(1,2) 1(1) b] .
  have "int (Suc n + length es) + 1 < 2 ^ 63" using Cons.prems(4) by simp
  from Cons.IH[OF q1 d1 1(2) this] show ?case by simp
qed

lemma reachable_queue_inv: "run evs NewOrderController = Some oc \<Longrightarrow> queue_inv oc"
  using run_queue_inv[OF queue_inv_init] .

lemma reachable_id_inv:
  "run evs NewOrderController = Some oc \<Longrightarrow> int (length evs) + 1 < 2 ^ 63 \<Longrightarrow>
   id_inv (length evs) oc"
  using run_id_inv[OF queue_inv_init id_inv_init, of evs oc] by simp

lemma run_snoc:
  "run (evs @ [e]) oc = (case run evs oc of None \<Rightarrow> None | Some oc1 \<Rightarrow> step e oc1)"
  by (induction evs arbitrary: oc) (auto split: option.splits)

section \<open>Each class of the queue is a FIFO\<close>

lemma filter_drop:
  "filter P (drop m q) = drop (length (filter P (take m q))) (filter P q)"
proof -
  have "filter P q = filter P (take m q) @ filter P (drop m q)"
    by (metis append_take_drop_id filter_append)
  then show ?thesis by simp
qed

lemma class_queue_cong:
  assumes "pendingOrders oc' = pendingOrders oc"
    "\<forall>x \<in> set (pendingOrders oc). Type (order_heap oc' ! x) = Type (order_heap oc ! x)"
  shows "class_queue t oc' = class_queue t oc"
  unfolding class_queue_def using assms by (auto intro: filter_cong)

lemma class_queue_assign:
  "\<exists>k. class_queue t (assignOrdersToBots now oc) = drop k (class_queue t oc)"
proof -
  obtain m where m: "pendingOrders (assignOrdersToBots now oc) = drop m (pendingOrders oc)"
    unfolding assignOrdersToBots_def using assignLoop_drop by blast
  have "class_queue t (assignOrdersToBots now oc) =
        filter (\<lambda>p. Type (order_heap oc ! p) = t) (drop m (pendingOrders oc))"
    unfolding class_queue_def m by (simp add: assignOrdersToBots_def assignLoop_Type)
  then show ?thesis unfolding class_queue_def filter_drop by blast
qed

lemma fifo_after_assign:
  assumes "\<forall>t. \<exists>ins. length ins \<le> 1 \<and> class_queue t oc1 = class_queue t oc @ ins"
  shows "fifo_step oc (assignOrdersToBots now oc1)"
  unfolding fifo_step_def
proof
  fix t
  obtain ins where ins: "length ins \<le> 1" "class_queue t oc1 = class_queue t oc @ ins"
    using assms by blast
  obtain k where "class_queue t (assignOrdersToBots now oc1) = drop k (class_queue t oc1)"
    using class_queue_assign by blast
  with ins show "\<exists>k ins. length ins \<le> 1 \<and>
      class_queue t (assignOrdersToBots now oc1) = drop k (class_queue t oc @ ins)"
    by auto
qed

lemma fifo_same:
  assumes "\<forall>t. class_queue t oc1 = class_queue t oc"
  shows "fifo_step oc (assignOrdersToBots now oc1)"
proof (rule fifo_after_assign, rule allI)
  fix t
  have "length ([] :: order_ptr list) \<le> 1 \<and> class_queue t oc1 = class_queue t oc @ []"
    using assms by simp
  then show "\<exists>ins. length ins \<le> 1 \<and> class_queue t oc1 = class_queue t oc @ ins" by blast
qed

lemma fifo_refl: "fifo_step oc oc"
  unfolding fifo_step_def
proof
  fix t
  have "length ([] :: order_ptr list) \<le> 1 \<and> class_queue t oc = drop 0 (class_queue t oc @ [])"
    by simp
  then show "\<exists>k ins. length ins \<le> 1 \<and> class_queue t oc = drop k (class_queue t oc @ ins)"
    by blast
qed

lemma fifo_cong:
  assumes "pendingOrders oc' = pendingOrders oc"
    "\<forall>x \<in> set (pendingOrders oc). Type (order_heap oc' ! x) = Type (order_heap oc ! x)"
  shows "fifo_step oc oc'"
  using fifo_refl[of oc] class_queue_cong[OF assms] by (simp add: fifo_step_def)

lemma filter_insert_at:
  assumes "\<forall>x \<in> set (drop k q). \<not> P x" "P x"
  shows "filter P (take k q @ [x] @ drop k q) = filter P q @ [x]"
    "filter (\<lambda>y. \<not> P y) (take k q @ [x] @ drop k q) = filter (\<lambda>y. \<not> P y) q"
proof -
  have e: "filter P (drop k q) = []" using assms(1) by (simp add: filter_empty_conv)
  have "filter P q = filter P (take k q) @ filter P (drop k q)"
    by (metis append_take_drop_id filter_append)
  then show "filter P (take k q @ [x] @ drop k q) = filter P q @ [x]"
    using assms(2) e by simp
  have "filter (\<lambda>y. \<not> P y) q = filter (\<lambda>y. \<not> P y) (take k q) @ filter (\<lambda>y. \<not> P y) (drop k q)"
    by (metis append_take_drop_id filter_append)
  then show "filter (\<lambda>y. \<not> P y) (take k q @ [x] @ drop k q) = filter (\<lambda>y. \<not> P y) q"
    using assms(2) by simp
qed

lemma class_queue_insert:
  assumes "Type (order_heap oc ! x) = c"
  shows "class_queue t (insertOrderToPending x oc) = class_queue t oc @ (if t = c then [x] else [])"
proof (cases c)
  case OrderTypeNormal
  then show ?thesis using assms
    by (auto simp: class_queue_def insertOrderToPending_def)
next
  case OrderTypeVIP
  define k where "k = insertIndex_loop (order_heap oc) (pendingOrders oc) 0 0"
  have pend: "pendingOrders (insertOrderToPending x oc) =
      take k (pendingOrders oc) @ [x] @ drop k (pendingOrders oc)"
    using assms OrderTypeVIP by (simp add: insertOrderToPending_pending k_def)
  have tl: "\<forall>p \<in> set (drop k (pendingOrders oc)). \<not> Type (order_heap oc ! p) = OrderTypeVIP"
    unfolding k_def using insertIndex_loop_tail[of 0 0 "order_heap oc" "pendingOrders oc"] by simp
  have xv: "Type (order_heap oc ! x) = OrderTypeVIP" using assms OrderTypeVIP by simp
  note f = filter_insert_at[OF tl xv]
  show ?thesis
  proof (cases t)
    case OrderTypeVIP
    then show ?thesis using f(1) xv assms by (simp add: class_queue_def pend)
  next
    case OrderTypeNormal
    have eq: "(\<lambda>p. Type (order_heap oc ! p) = OrderTypeNormal) =
              (\<lambda>p. \<not> Type (order_heap oc ! p) = OrderTypeVIP)"
      by (simp add: not_VIP_iff)
    show ?thesis using f(2) xv assms OrderTypeNormal
      unfolding class_queue_def pend by (simp add: eq)
  qed
qed

lemma insertVIPOrder_as_insert:
  "Type (order_heap oc ! x) = OrderTypeVIP \<Longrightarrow> insertVIPOrder x oc = insertOrderToPending x oc"
  by (simp add: insertOrderToPending_def)

lemma append_as_insert:
  "Type (order_heap oc ! x) = OrderTypeNormal \<Longrightarrow>
   oc\<lparr>pendingOrders := pendingOrders oc @ [x]\<rparr> = insertOrderToPending x oc"
  by (simp add: insertOrderToPending_def)

lemma fifo_step_goroutines [simp]: "fifo_step oc (oc1\<lparr>goroutines := gs\<rparr>) = fifo_step oc oc1"
  by (simp add: fifo_step_def class_queue_def)

lemma fifo_insert_then_assign:
  assumes "\<forall>t. class_queue t oc0 = class_queue t oc"
  shows "fifo_step oc (assignOrdersToBots now (insertOrderToPending x oc0))"
proof (rule fifo_after_assign, rule allI)
  fix t
  let ?ins = "if t = Type (order_heap oc0 ! x) then [x] else []"
  have "length ?ins \<le> 1 \<and> class_queue t (insertOrderToPending x oc0) = class_queue t oc @ ?ins"
    using class_queue_insert[of oc0 x "Type (order_heap oc0 ! x)" t] assms by simp
  then show "\<exists>ins. length ins \<le> 1 \<and>
      class_queue t (insertOrderToPending x oc0) = class_queue t oc @ ins" by blast
qed

lemma newNormalOrder_fifo:
  assumes i: "queue_inv oc"
  shows "fifo_step oc (assignOrdersToBots now (newNormalOrder now oc))"
proof -
  define oc0 where "oc0 = oc\<lparr>nextOrderID := atomic_AddInt64 (nextOrderID oc) 1,
        order_heap := order_heap oc @
          [\<lparr>ID = wrap64 (atomic_AddInt64 (nextOrderID oc) 1 - 1), Type = OrderTypeNormal,
            Status = OrderStatusPending, BotID = 0, Created = now, Started = 0, Completed = 0\<rparr>],
        orders := orders oc @ [length (order_heap oc)]\<rparr>"
  have "newNormalOrder now oc = oc0\<lparr>pendingOrders := pendingOrders oc0 @ [length (order_heap oc)]\<rparr>"
    by (simp add: newNormalOrder_def oc0_def)
  also have "\<dots> = insertOrderToPending (length (order_heap oc)) oc0"
    by (rule append_as_insert) (simp add: oc0_def)
  finally have res: "newNormalOrder now oc = insertOrderToPending (length (order_heap oc)) oc0" .
  have "class_queue t oc0 = class_queue t oc" for t
    using queue_inv_parts(1)[OF i]
    by (intro class_queue_cong) (auto simp: oc0_def valid_ptrs_iff nth_append)
  then show ?thesis unfolding res by (intro fifo_insert_then_assign) simp
qed

lemma newVIPOrder_fifo:
  assumes i: "queue_inv oc"
  shows "fifo_step oc (assignOrdersToBots now (newVIPOrder now oc))"
proof -
  define oc0 where "oc0 = oc\<lparr>nextOrderID := atomic_AddInt64 (nextOrderID oc) 1,
        order_heap := order_heap oc @
          [\<lparr>ID = wrap64 (atomic_AddInt64 (nextOrderID oc) 1 - 1), Type = OrderTypeVIP,
            Status = OrderStatusPending, BotID = 0, Created = now, Started = 0, Completed = 0\<rparr>],
        orders := orders oc @ [length (order_heap oc)]\<rparr>"
  have "newVIPOrder now oc = insertVIPOrder (length (order_heap oc)) oc0"
    by (simp add: newVIPOrder_def oc0_def)
  also have "\<dots> = insertOrderToPending (length (order_heap oc)) oc0"
    by (rule insertVIPOrder_as_insert) (simp add: oc0_def)
  finally have res: "newVIPOrder now oc = insertOrderToPending (length (order_heap oc)) oc0" .
  have "class_queue t oc0 = class_queue t oc" for t
    using queue_inv_parts(1)[OF i]
    by (intro class_queue_cong) (auto simp: oc0_def valid_ptrs_iff nth_append)
  then show ?thesis unfolding res by (intro fifo_insert_then_assign) simp
qed

lemma step_fifo:
  assumes i: "queue_inv oc" and st: "step e oc = Some oc'"
  shows "fifo_step oc oc'"
proof (cases e)
  case (EvCreateNormalOrder now)
  then show ?thesis using st newNormalOrder_fifo[OF i] by (auto simp: CreateNormalOrder_split)
next
  case (EvCreateVIPOrder now)
  then show ?thesis using st newVIPOrder_fifo[OF i] by (auto simp: CreateVIPOrder_split)
next
  case (EvAddBot now)
  have "fifo_step oc (assignOrdersToBots now (newBot oc))"
    by (rule fifo_same) (simp add: class_queue_def newBot_def)
  then show ?thesis using EvAddBot st by (auto simp: AddBot_split)
next
  case (EvWait now)
  have "fifo_step oc (assignOrdersToBots now oc)" by (rule fifo_same) simp
  then show ?thesis using EvWait st by (auto simp: Wait_def)
next
  case (EvRemoveBot now)
  then have rm: "RemoveBot now oc = Some oc'" using st by simp
  from RemoveBot_cases[OF i, of now] show ?thesis
  proof (elim disjE exE conjE)
    assume "RemoveBot now oc = Some oc"
    then show ?thesis using rm fifo_refl by simp
  next
    fix bs b
    assume "RemoveBot now oc = Some (assignOrdersToBots now (oc\<lparr>bots := bs\<rparr>))"
    moreover have "fifo_step oc (assignOrdersToBots now (oc\<lparr>bots := bs\<rparr>))"
      by (rule fifo_same) (simp add: class_queue_def)
    ultimately show ?thesis using rm by simp
  next
    fix bs b p
    assume "RemoveBot now oc = Some (assignOrdersToBots now (insertOrderToPending p
          (oc\<lparr>bots := bs,
              bot_heap := (bot_heap oc)[b := (bot_heap oc ! b)\<lparr>stopChan := [True]\<rparr>],
              order_heap := (order_heap oc)[p := (order_heap oc ! p)\<lparr>Status := OrderStatusPending,
                                                                      BotID := 0\<rparr>]\<rparr>)))"
    moreover have "fifo_step oc (assignOrdersToBots now (insertOrderToPending p
          (oc\<lparr>bots := bs,
              bot_heap := (bot_heap oc)[b := (bot_heap oc ! b)\<lparr>stopChan := [True]\<rparr>],
              order_heap := (order_heap oc)[p := (order_heap oc ! p)\<lparr>Status := OrderStatusPending,
                                                                      BotID := 0\<rparr>]\<rparr>)))"
      by (rule fifo_insert_then_assign) (simp add: class_queue_def)
    ultimately show ?thesis using rm by simp
  qed
next
  case (EvGoroutine now k c)
  with st obtain r oc1 where
    it: "processOrder_iteration now c (goroutines oc ! k) oc = Some (r, oc1)"
    and oc': "oc' = (if r then oc1\<lparr>goroutines := take k (goroutines oc1) @ drop (k + 1) (goroutines oc1)\<rparr>
                     else oc1)"
    by (auto simp: goroutine_step_def split: if_splits option.splits)
  have "fifo_step oc oc1"
    using processOrder_iteration_cases[OF it]
  proof (elim disjE exE conjE)
    fix v buf
    assume "oc1 = oc\<lparr>bot_heap := (bot_heap oc)[fst (goroutines oc ! k) :=
        (bot_heap oc ! fst (goroutines oc ! k))\<lparr>stopChan := buf\<rparr>]\<rparr>"
    then show ?thesis by (intro fifo_cong) simp_all
  next
    fix p
    assume "oc1 = assignOrdersToBots now
          (oc\<lparr>order_heap := (order_heap oc)[p := (order_heap oc ! p)\<lparr>Status := OrderStatusComplete,
                                                                     Completed := now\<rparr>],
              bot_heap := (bot_heap oc)[fst (goroutines oc ! k) :=
                 (bot_heap oc ! fst (goroutines oc ! k))\<lparr>Bot_Order := None,
                                                               Bot_Status := BotStatusIdle\<rparr>],
              completedOrders := completedOrders oc @ [p]\<rparr>)"
    moreover have "fifo_step oc (assignOrdersToBots now
          (oc\<lparr>order_heap := (order_heap oc)[p := (order_heap oc ! p)\<lparr>Status := OrderStatusComplete,
                                                                     Completed := now\<rparr>],
              bot_heap := (bot_heap oc)[fst (goroutines oc ! k) :=
                 (bot_heap oc ! fst (goroutines oc ! k))\<lparr>Bot_Order := None,
                                                               Bot_Status := BotStatusIdle\<rparr>],
              completedOrders := completedOrders oc @ [p]\<rparr>))"
      by (rule fifo_same) (simp add: class_queue_def)
    ultimately show ?thesis by simp
  qed (simp_all add: fifo_refl)
  then show ?thesis by (simp add: oc')
qed

section \<open>Runs without the race: every order in one collection\<close>

lemma slot_of_update_other: "x \<noteq> b \<Longrightarrow> slot_of (bh[b := v]) x = slot_of bh x"
  by (simp add: slot_of_def)

lemma in_flight_frame:
  assumes "\<forall>x \<in> set bs. Bot_Order (bh' ! x) = Bot_Order (bh ! x)"
  shows "concat (map (slot_of bh') bs) = concat (map (slot_of bh) bs)"
  using assms by (induction bs) (simp_all add: slot_of_def)

lemma in_flight_update:
  assumes "distinct bs" "b \<in> set bs" "b < length bh"
  shows "mset (concat (map (slot_of (bh[b := v])) bs)) + mset (slot_of bh b) =
         mset (concat (map (slot_of bh) bs)) + mset (slot_of (bh[b := v]) b)"
  using assms
proof (induction bs)
  case Nil
  then show ?case by simp
next
  case (Cons x bs)
  show ?case
  proof (cases "x = b")
    case True
    then have "b \<notin> set bs" using Cons.prems by simp
    then have "\<forall>x \<in> set bs. b \<noteq> x" by auto
    then have "concat (map (slot_of (bh[b := v])) bs) = concat (map (slot_of bh) bs)"
      by (intro in_flight_frame) simp
    then show ?thesis using True by simp
  next
    case False
    then have "b \<in> set bs" "distinct bs" using Cons.prems by auto
    from Cons.IH[OF this(2,1) Cons.prems(3)] False show ?thesis
      by (simp add: slot_of_update_other)
  qed
qed

lemma exclusive_distinct:
  assumes "exclusive oc"
  shows "distinct (pendingOrders oc @ in_flight oc @ completedOrders oc)"
proof -
  have "distinct (orders oc)" using assms by (simp add: exclusive_def)
  moreover have "mset (pendingOrders oc @ in_flight oc @ completedOrders oc) = mset (orders oc)"
    using assms by (simp add: exclusive_def)
  ultimately show ?thesis using mset_eq_imp_distinct_iff by blast
qed

lemma strong_inv_parts:
  assumes "strong_inv oc"
  shows "queue_inv oc" "exclusive oc" "status_ok oc" "pool_ok oc" "goroutines_ok oc"
  using assms by (simp_all add: strong_inv_def)

lemma exclusive_parts:
  assumes "exclusive oc"
  shows "orders oc = [0..<length (order_heap oc)]"
    "mset (pendingOrders oc) + mset (in_flight oc) + mset (completedOrders oc) = mset (orders oc)"
    "distinct (pendingOrders oc)" "distinct (in_flight oc)" "distinct (completedOrders oc)"
    "set (pendingOrders oc) \<inter> set (in_flight oc) = {}"
    "set (pendingOrders oc) \<inter> set (completedOrders oc) = {}"
    "set (in_flight oc) \<inter> set (completedOrders oc) = {}"
    "\<forall>p \<in> set (pendingOrders oc) \<union> set (in_flight oc) \<union> set (completedOrders oc).
       p < length (order_heap oc)"
proof -
  show o: "orders oc = [0..<length (order_heap oc)]" using assms by (simp add: exclusive_def)
  show m: "mset (pendingOrders oc) + mset (in_flight oc) + mset (completedOrders oc) = mset (orders oc)"
    using assms by (simp add: exclusive_def ac_simps)
  from exclusive_distinct[OF assms]
  show "distinct (pendingOrders oc)" "distinct (in_flight oc)" "distinct (completedOrders oc)"
    "set (pendingOrders oc) \<inter> set (in_flight oc) = {}"
    "set (pendingOrders oc) \<inter> set (completedOrders oc) = {}"
    "set (in_flight oc) \<inter> set (completedOrders oc) = {}"
    by auto
  have "set (pendingOrders oc) \<union> set (in_flight oc) \<union> set (completedOrders oc) = set (orders oc)"
    using arg_cong[OF m, of set_mset] by simp
  then show "\<forall>p \<in> set (pendingOrders oc) \<union> set (in_flight oc) \<union> set (completedOrders oc).
       p < length (order_heap oc)"
    unfolding o by simp
qed

lemma status_ok_iff:
  "status_ok oc =
     ((\<forall>p \<in> set (pendingOrders oc). Status (order_heap oc ! p) = OrderStatusPending) \<and>
      (\<forall>p \<in> set (in_flight oc). Status (order_heap oc ! p) = OrderStatusProcessing) \<and>
      (\<forall>p \<in> set (completedOrders oc). Status (order_heap oc ! p) = OrderStatusComplete))"
  by (simp add: status_ok_def list_all_iff)

lemma pool_ok_iff:
  "pool_ok oc =
     (\<forall>b \<in> set (bots oc). (Bot_Status (bot_heap oc ! b) = BotStatusProcessing) =
                            (Bot_Order (bot_heap oc ! b) \<noteq> None))"
  by (simp add: pool_ok_def list_all_iff)

lemma goroutines_ok_iff:
  "goroutines_ok oc =
     (distinct (map fst (goroutines oc)) \<and>
      (\<forall>g \<in> set (goroutines oc).
         (fst g \<in> set (bots oc) \<longrightarrow> Bot_Status (bot_heap oc ! fst g) = BotStatusProcessing) \<and>
         (fst g \<notin> set (bots oc) \<longrightarrow> stopChan (bot_heap oc ! fst g) \<noteq> [])))"
  by (auto simp: goroutines_ok_def list_all_iff)

lemma assignOrderToBot_strong_inv:
  assumes s: "strong_inv oc" and b: "b \<in> set (bots oc)"
  shows "strong_inv (assignOrderToBot now b oc)"
proof (cases "Bot_Status (bot_heap oc ! b) = BotStatusIdle \<and> pendingOrders oc \<noteq> []")
  case False
  then have "assignOrderToBot now b oc = oc" by (intro assignOrderToBot_noop) auto
  with s show ?thesis by simp
next
  case True
  then obtain p q where pq: "pendingOrders oc = p # q" by (cases "pendingOrders oc") auto
  define bv where "bv = (bot_heap oc ! b)\<lparr>Bot_Order := Some p, Bot_Status := BotStatusProcessing\<rparr>"
  define ov where "ov = (order_heap oc ! p)\<lparr>Status := OrderStatusProcessing,
                                        BotID := Bot_ID (bot_heap oc ! b), Started := now\<rparr>"
  define oc1 where "oc1 = assignOrderToBot now b oc"
  have oc1: "oc1 = oc\<lparr>pendingOrders := q, bot_heap := (bot_heap oc)[b := bv],
        order_heap := (order_heap oc)[p := ov], goroutines := goroutines oc @ [(b, now)]\<rparr>"
    unfolding oc1_def bv_def ov_def using True pq by (intro assignOrderToBot_idle_step) auto
  note sp = strong_inv_parts[OF s]
  note q = queue_inv_parts[OF sp(1)]
  note ex = exclusive_parts[OF sp(2)]
  have blt: "b < length (bot_heap oc)" using q(1) b by (simp add: valid_ptrs_iff)
  have plt: "p < length (order_heap oc)" using q(1) pq by (simp add: valid_ptrs_iff)
  have idle: "Bot_Status (bot_heap oc ! b) = BotStatusIdle" using True by simp
  have none: "Bot_Order (bot_heap oc ! b) = None"
    using sp(4) b idle by (auto simp: pool_ok_iff)
  have q1: "queue_inv oc1" unfolding oc1_def using sp(1) b by (rule assignOrderToBot_queue_inv)
  have fl: "mset (in_flight oc1) = mset (in_flight oc) + {#p#}"
    using in_flight_update[OF q(5) b blt, of bv] none blt
    by (simp add: in_flight_def oc1 slot_of_def bv_def)
  have ex1: "exclusive oc1"
    using ex(1,2) fl pq by (simp add: exclusive_def oc1 ac_simps)
  have set_fl: "set (in_flight oc1) = insert p (set (in_flight oc))"
    using arg_cong[OF fl, of set_mset] by simp
  have pq_ne: "p \<notin> set q" using ex(3) pq by simp
  have p_nf: "p \<notin> set (in_flight oc)" using ex(6) pq by auto
  have p_nc: "p \<notin> set (completedOrders oc)" using ex(7) pq by auto
  have ne: "\<forall>x \<in> set q. p \<noteq> x" "\<forall>x \<in> set (in_flight oc). p \<noteq> x"
    "\<forall>x \<in> set (completedOrders oc). p \<noteq> x"
    using pq_ne p_nf p_nc by auto
  have st_p: "Status (order_heap oc1 ! p) = OrderStatusProcessing"
    using plt by (simp add: oc1 ov_def)
  have st1: "status_ok oc1"
    unfolding status_ok_iff set_fl
    using sp(3) pq ne st_p
    by (simp add: status_ok_iff oc1)
  have po1: "pool_ok oc1"
    unfolding pool_ok_iff
  proof
    fix x assume "x \<in> set (bots oc1)"
    then have x: "x \<in> set (bots oc)" by (simp add: oc1)
    show "(Bot_Status (bot_heap oc1 ! x) = BotStatusProcessing) = (Bot_Order (bot_heap oc1 ! x) \<noteq> None)"
    proof (cases "x = b")
      case True
      then show ?thesis using blt by (simp add: oc1 bv_def)
    next
      case False
      then show ?thesis using sp(4) x by (simp add: oc1 pool_ok_iff)
    qed
  qed
  have nog: "b \<notin> fst ` set (goroutines oc)"
  proof
    assume "b \<in> fst ` set (goroutines oc)"
    then obtain g where "g \<in> set (goroutines oc)" "fst g = b" by auto
    then have "Bot_Status (bot_heap oc ! b) = BotStatusProcessing"
      using sp(5) b by (auto simp: goroutines_ok_iff)
    with idle show False by simp
  qed
  have go1: "goroutines_ok oc1"
    unfolding goroutines_ok_iff
  proof (intro conjI ballI)
    show "distinct (map fst (goroutines oc1))"
      using sp(5) nog by (simp add: goroutines_ok_iff oc1)
  next
    fix g assume g: "g \<in> set (goroutines oc1)"
    show "fst g \<in> set (bots oc1) \<longrightarrow> Bot_Status (bot_heap oc1 ! fst g) = BotStatusProcessing"
    proof (cases "fst g = b")
      case True
      then show ?thesis using blt by (simp add: oc1 bv_def)
    next
      case False
      then have "g \<in> set (goroutines oc)" using g by (auto simp: oc1)
      then show ?thesis using sp(5) False by (simp add: goroutines_ok_iff oc1)
    qed
    show "fst g \<notin> set (bots oc1) \<longrightarrow> stopChan (bot_heap oc1 ! fst g) \<noteq> []"
    proof (cases "fst g = b")
      case True
      then show ?thesis using b by (simp add: oc1)
    next
      case False
      then have "g \<in> set (goroutines oc)" using g by (auto simp: oc1)
      then show ?thesis using sp(5) False by (simp add: goroutines_ok_iff oc1 bv_def)
    qed
  qed
  show ?thesis
    unfolding oc1_def[symmetric] strong_inv_def using q1 ex1 st1 po1 go1 by simp
qed

lemma assignLoop_strong_inv:
  "strong_inv oc \<Longrightarrow> set bs \<subseteq> set (bots oc) \<Longrightarrow> strong_inv (assignLoop now bs oc)"
proof (induction bs arbitrary: oc)
  case Nil
  then show ?case by simp
next
  case (Cons b bs)
  have "strong_inv (assignOrderToBot now b oc)"
    using Cons.prems by (intro assignOrderToBot_strong_inv) auto
  moreover have "set bs \<subseteq> set (bots (assignOrderToBot now b oc))" using Cons.prems by simp
  ultimately show ?case using Cons.IH by simp
qed

lemma assignOrdersToBots_strong_inv: "strong_inv oc \<Longrightarrow> strong_inv (assignOrdersToBots now oc)"
  unfolding assignOrdersToBots_def by (rule assignLoop_strong_inv) simp_all

lemma in_flight_valid:
  assumes "valid_ptrs oc"
  shows "\<forall>p \<in> set (in_flight oc). p < length (order_heap oc)"
proof
  fix p assume "p \<in> set (in_flight oc)"
  then obtain b where b: "b \<in> set (bots oc)" "Bot_Order (bot_heap oc ! b) = Some p"
    by (auto simp: in_flight_def slot_of_def split: option.splits)
  then have "b < length (bot_heap oc)" using assms by (simp add: valid_ptrs_iff)
  from nth_mem[OF this] b(2) assms show "p < length (order_heap oc)"
    unfolding valid_ptrs_iff by blast
qed

text \<open>A new order enters the queue.\<close>

lemma new_order_strong_inv:
  assumes s: "strong_inv oc"
    and q1: "queue_inv oc1"
    and oh: "order_heap oc1 = order_heap oc @ [ov]" "Status ov = OrderStatusPending"
    and os: "orders oc1 = orders oc @ [length (order_heap oc)]"
    and pe: "mset (pendingOrders oc1) = mset (pendingOrders oc) + {#length (order_heap oc)#}"
    and same: "bot_heap oc1 = bot_heap oc" "bots oc1 = bots oc"
      "completedOrders oc1 = completedOrders oc" "goroutines oc1 = goroutines oc"
  shows "strong_inv oc1"
proof -
  note sp = strong_inv_parts[OF s]
  note ex = exclusive_parts[OF sp(2)]
  have fl: "in_flight oc1 = in_flight oc" by (simp add: in_flight_def same)
  have ex1: "exclusive oc1"
    using ex(1,2) pe by (simp add: exclusive_def oh os fl same ac_simps)
  have old: "\<forall>p \<in> set (pendingOrders oc) \<union> set (in_flight oc) \<union> set (completedOrders oc).
      Status (order_heap oc1 ! p) = Status (order_heap oc ! p)"
    using ex(9) by (simp add: oh nth_append)
  have setp: "set (pendingOrders oc1) = insert (length (order_heap oc)) (set (pendingOrders oc))"
    using arg_cong[OF pe, of set_mset] by simp
  have st1: "status_ok oc1"
    unfolding status_ok_iff fl setp same
    using sp(3) old oh(2) by (auto simp: status_ok_iff oh(1))
  have po1: "pool_ok oc1" using sp(4) by (simp add: pool_ok_iff same)
  have go1: "goroutines_ok oc1" using sp(5) by (simp add: goroutines_ok_iff same)
  show ?thesis unfolding strong_inv_def using q1 ex1 st1 po1 go1 by simp
qed

lemma newNormalOrder_strong_inv:
  assumes s: "strong_inv oc"
  shows "strong_inv (newNormalOrder now oc)"
  using s newNormalOrder_queue_inv[OF strong_inv_parts(1)[OF s], of now]
  by (rule new_order_strong_inv[where ov = "\<lparr>ID = wrap64 (atomic_AddInt64 (nextOrderID oc) 1 - 1),
        Type = OrderTypeNormal, Status = OrderStatusPending, BotID = 0, Created = now,
        Started = 0, Completed = 0\<rparr>"])
     (simp_all add: newNormalOrder_def)

lemma mset_insert_at: "mset (take k q @ [x] @ drop k q) = mset q + {#x#}"
proof -
  have "mset (take k q) + mset (drop k q) = mset q"
    by (metis append_take_drop_id mset_append)
  then show ?thesis by simp
qed

lemma newVIPOrder_strong_inv:
  assumes s: "strong_inv oc"
  shows "strong_inv (newVIPOrder now oc)"
  using s newVIPOrder_queue_inv[OF strong_inv_parts(1)[OF s], of now]
proof (rule new_order_strong_inv[where ov = "\<lparr>ID = wrap64 (atomic_AddInt64 (nextOrderID oc) 1 - 1),
        Type = OrderTypeVIP, Status = OrderStatusPending, BotID = 0, Created = now,
        Started = 0, Completed = 0\<rparr>"])
  show "mset (pendingOrders (newVIPOrder now oc)) =
        mset (pendingOrders oc) + {#length (order_heap oc)#}"
    unfolding newVIPOrder_def insertVIPOrder_def Let_def
    using mset_insert_at[of _ "pendingOrders oc" "length (order_heap oc)"] by simp
qed (simp_all add: newVIPOrder_def insertVIPOrder_def Let_def)

lemma newBot_strong_inv:
  assumes s: "strong_inv oc"
  shows "strong_inv (newBot oc)"
proof -
  note sp = strong_inv_parts[OF s]
  note q = queue_inv_parts[OF sp(1)]
  note ex = exclusive_parts[OF sp(2)]
  define nb where "nb = \<lparr>Bot_ID = wrap64 (atomic_AddInt64 (nextBotID oc) 1 - 1),
            Bot_Status = BotStatusIdle, Bot_Order = None, stopChan = []\<rparr>"
  define new where "new = length (bot_heap oc)"
  have res: "newBot oc = oc\<lparr>nextBotID := atomic_AddInt64 (nextBotID oc) 1,
        bot_heap := bot_heap oc @ [nb], bots := bots oc @ [new]\<rparr>"
    by (simp add: newBot_def nb_def new_def)
  have oldb: "\<forall>b \<in> set (bots oc). (bot_heap oc @ [nb]) ! b = bot_heap oc ! b"
    using q(1) by (auto simp: valid_ptrs_iff nth_append)
  have oldg: "\<forall>g \<in> set (goroutines oc). (bot_heap oc @ [nb]) ! fst g = bot_heap oc ! fst g"
    "\<forall>g \<in> set (goroutines oc). fst g \<noteq> new"
    using q(1) by (auto simp: valid_ptrs_iff nth_append new_def)
  have "concat (map (slot_of (bot_heap oc @ [nb])) (bots oc)) =
        concat (map (slot_of (bot_heap oc)) (bots oc))"
    using oldb by (intro in_flight_frame) simp
  moreover have "slot_of (bot_heap oc @ [nb]) new = []"
    by (simp add: slot_of_def new_def nb_def)
  ultimately have fl: "in_flight (newBot oc) = in_flight oc"
    by (simp add: in_flight_def res)
  have q1: "queue_inv (newBot oc)" using sp(1) by (rule newBot_queue_inv)
  have ex1: "exclusive (newBot oc)"
    using sp(2) unfolding exclusive_def fl by (simp add: res)
  have st1: "status_ok (newBot oc)"
    using sp(3) unfolding status_ok_iff fl by (simp add: res)
  have po1: "pool_ok (newBot oc)"
    using sp(4) oldb unfolding pool_ok_iff by (simp add: res new_def nb_def)
  have go1: "goroutines_ok (newBot oc)"
    using sp(5) oldg unfolding goroutines_ok_iff by (simp add: res)
  show ?thesis unfolding strong_inv_def using q1 ex1 st1 po1 go1 by simp
qed

lemma drop_bot_strong_inv:
  assumes s: "strong_inv oc" and bs: "bots oc = bs @ [b]"
    and idle: "\<not> (Bot_Status (bot_heap oc ! b) = BotStatusProcessing \<and>
                   Bot_Order (bot_heap oc ! b) \<noteq> None)"
  shows "strong_inv (oc\<lparr>bots := bs\<rparr>)"
proof -
  note sp = strong_inv_parts[OF s]
  have bin: "b \<in> set (bots oc)" using bs by simp
  have np: "Bot_Status (bot_heap oc ! b) \<noteq> BotStatusProcessing"
    and none: "Bot_Order (bot_heap oc ! b) = None"
    using sp(4) bin idle by (auto simp: pool_ok_iff)
  have fl: "in_flight (oc\<lparr>bots := bs\<rparr>) = in_flight oc"
    using none by (simp add: in_flight_def bs slot_of_def)
  have q1: "queue_inv (oc\<lparr>bots := bs\<rparr>)" using sp(1) bs by (rule queue_inv_drop_bot)
  have ex1: "exclusive (oc\<lparr>bots := bs\<rparr>)" using sp(2) unfolding exclusive_def fl by simp
  have st1: "status_ok (oc\<lparr>bots := bs\<rparr>)" using sp(3) unfolding status_ok_iff fl by simp
  have po1: "pool_ok (oc\<lparr>bots := bs\<rparr>)" using sp(4) bs by (simp add: pool_ok_iff)
  have go1: "goroutines_ok (oc\<lparr>bots := bs\<rparr>)"
    unfolding goroutines_ok_iff
  proof (intro conjI ballI)
    show "distinct (map fst (goroutines (oc\<lparr>bots := bs\<rparr>)))"
      using sp(5) by (simp add: goroutines_ok_iff)
  next
    fix g assume g: "g \<in> set (goroutines (oc\<lparr>bots := bs\<rparr>))"
    then have g': "g \<in> set (goroutines oc)" by simp
    have nb: "fst g \<noteq> b"
    proof
      assume "fst g = b"
      then have "Bot_Status (bot_heap oc ! b) = BotStatusProcessing"
        using sp(5) g' bin by (auto simp: goroutines_ok_iff)
      with np show False by simp
    qed
    show "fst g \<in> set (bots (oc\<lparr>bots := bs\<rparr>)) \<longrightarrow>
          Bot_Status (bot_heap (oc\<lparr>bots := bs\<rparr>) ! fst g) = BotStatusProcessing"
      using sp(5) g' bs by (simp add: goroutines_ok_iff)
    show "fst g \<notin> set (bots (oc\<lparr>bots := bs\<rparr>)) \<longrightarrow>
          stopChan (bot_heap (oc\<lparr>bots := bs\<rparr>) ! fst g) \<noteq> []"
      using sp(5) g' bs nb by (simp add: goroutines_ok_iff)
  qed
  show ?thesis unfolding strong_inv_def using q1 ex1 st1 po1 go1 by simp
qed

lemma mset_insertOrderToPending:
  "mset (pendingOrders (insertOrderToPending p oc)) = mset (pendingOrders oc) + {#p#}"
  unfolding insertOrderToPending_pending
  using mset_insert_at[of _ "pendingOrders oc" p]
  by (simp split: OrderType.split)

lemma requeue_strong_inv:
  assumes s: "strong_inv oc" and bs: "bots oc = bs @ [b]"
    and po: "Bot_Order (bot_heap oc ! b) = Some p"
  shows "strong_inv (insertOrderToPending p
       (oc\<lparr>bots := bs,
           bot_heap := (bot_heap oc)[b := (bot_heap oc ! b)\<lparr>stopChan := [True]\<rparr>],
           order_heap := (order_heap oc)[p := (order_heap oc ! p)\<lparr>Status := OrderStatusPending,
                                                                   BotID := 0\<rparr>]\<rparr>))"
proof -
  note sp = strong_inv_parts[OF s]
  note q = queue_inv_parts[OF sp(1)]
  note ex = exclusive_parts[OF sp(2)]
  define oc3 where "oc3 = insertOrderToPending p
       (oc\<lparr>bots := bs,
           bot_heap := (bot_heap oc)[b := (bot_heap oc ! b)\<lparr>stopChan := [True]\<rparr>],
           order_heap := (order_heap oc)[p := (order_heap oc ! p)\<lparr>Status := OrderStatusPending,
                                                                   BotID := 0\<rparr>]\<rparr>)"
  have f3: "bots oc3 = bs"
    "bot_heap oc3 = (bot_heap oc)[b := (bot_heap oc ! b)\<lparr>stopChan := [True]\<rparr>]"
    "order_heap oc3 = (order_heap oc)[p := (order_heap oc ! p)\<lparr>Status := OrderStatusPending,
                                                                BotID := 0\<rparr>]"
    "orders oc3 = orders oc" "completedOrders oc3 = completedOrders oc"
    "goroutines oc3 = goroutines oc"
    by (simp_all add: oc3_def)
  have pend: "mset (pendingOrders oc3) = mset (pendingOrders oc) + {#p#}"
    unfolding oc3_def mset_insertOrderToPending by simp
  have setp: "set (pendingOrders oc3) = insert p (set (pendingOrders oc))"
    using arg_cong[OF pend, of set_mset] by simp
  have bin: "b \<in> set (bots oc)" using bs by simp
  have blt: "b < length (bot_heap oc)" using q(1) bin by (simp add: valid_ptrs_iff)
  have fl_old: "in_flight oc = concat (map (slot_of (bot_heap oc)) bs) @ [p]"
    using po by (simp add: in_flight_def bs slot_of_def)
  have "concat (map (slot_of (bot_heap oc3)) bs) = concat (map (slot_of (bot_heap oc)) bs)"
    by (intro in_flight_frame) (simp add: f3)
  then have fl: "in_flight oc3 = concat (map (slot_of (bot_heap oc)) bs)"
    by (simp add: in_flight_def f3)
  have plt: "p < length (order_heap oc)" using ex(9) fl_old by simp
  have q1: "queue_inv oc3" unfolding oc3_def using sp(1) bs po by (rule queue_inv_requeue)
  have ex1: "exclusive oc3"
    using ex(1,2) pend unfolding exclusive_def fl f3 fl_old by (simp add: ac_simps)
  have ne: "\<forall>x \<in> set (pendingOrders oc). p \<noteq> x"
    "\<forall>x \<in> set (concat (map (slot_of (bot_heap oc)) bs)). p \<noteq> x"
    "\<forall>x \<in> set (completedOrders oc). p \<noteq> x"
    using ex(4,6,8) unfolding fl_old by auto
  have st1: "status_ok oc3"
    unfolding status_ok_iff fl setp f3
    using sp(3) ne plt unfolding status_ok_iff fl_old by simp
  have po1: "pool_ok oc3"
    using sp(4) bs unfolding pool_ok_iff f3 by simp
  have go1: "goroutines_ok oc3"
    unfolding goroutines_ok_iff f3
  proof (intro conjI ballI)
    show "distinct (map fst (goroutines oc))" using sp(5) by (simp add: goroutines_ok_iff)
  next
    fix g assume g: "g \<in> set (goroutines oc)"
    show "fst g \<in> set bs \<longrightarrow>
      Bot_Status ((bot_heap oc)[b := (bot_heap oc ! b)\<lparr>stopChan := [True]\<rparr>] ! fst g) =
      BotStatusProcessing"
      using sp(5) g bs by (simp add: goroutines_ok_iff)
    show "fst g \<notin> set bs \<longrightarrow>
      stopChan ((bot_heap oc)[b := (bot_heap oc ! b)\<lparr>stopChan := [True]\<rparr>] ! fst g) \<noteq> []"
    proof (cases "fst g = b")
      case True
      then show ?thesis using blt by simp
    next
      case False
      then have "b \<noteq> fst g" by simp
      then show ?thesis using sp(5) g bs by (simp add: goroutines_ok_iff)
    qed
  qed
  show ?thesis unfolding oc3_def[symmetric] strong_inv_def using q1 ex1 st1 po1 go1 by simp
qed

lemma RemoveBot_strong_inv:
  assumes s: "strong_inv oc" and rm: "RemoveBot now oc = Some oc'"
  shows "strong_inv oc'"
  using RemoveBot_cases[OF strong_inv_parts(1)[OF s], of now]
proof (elim disjE exE conjE)
  assume "RemoveBot now oc = Some oc"
  then show ?thesis using s rm by simp
next
  fix bs b
  assume bs: "bots oc = bs @ [b]"
    and idle: "\<not> (Bot_Status (bot_heap oc ! b) = BotStatusProcessing \<and>
                   Bot_Order (bot_heap oc ! b) \<noteq> None)"
    and rm': "RemoveBot now oc = Some (assignOrdersToBots now (oc\<lparr>bots := bs\<rparr>))"
  show ?thesis
    using rm rm' assignOrdersToBots_strong_inv[OF drop_bot_strong_inv[OF s bs idle], of now]
    by simp
next
  fix bs b p
  assume bs: "bots oc = bs @ [b]" and po: "Bot_Order (bot_heap oc ! b) = Some p"
    and rm': "RemoveBot now oc = Some (assignOrdersToBots now (insertOrderToPending p
          (oc\<lparr>bots := bs,
              bot_heap := (bot_heap oc)[b := (bot_heap oc ! b)\<lparr>stopChan := [True]\<rparr>],
              order_heap := (order_heap oc)[p := (order_heap oc ! p)\<lparr>Status := OrderStatusPending,
                                                                      BotID := 0\<rparr>]\<rparr>)))"
  show ?thesis
    using rm rm' assignOrdersToBots_strong_inv[OF requeue_strong_inv[OF s bs po], of now]
    by simp
qed

lemma distinct_remove_nth:
  assumes "distinct (map f xs)" "i < length xs"
  shows "distinct (map f (take i xs @ drop (Suc i) xs))"
    "\<forall>y \<in> set (take i xs @ drop (Suc i) xs). f y \<noteq> f (xs ! i)"
proof -
  have "distinct (map f (take i xs @ xs ! i # drop (Suc i) xs))"
    using assms id_take_nth_drop[OF assms(2)] by simp
  then have d: "distinct (map f (take i xs @ drop (Suc i) xs))"
    and n: "f (xs ! i) \<notin> f ` set (take i xs)" "f (xs ! i) \<notin> f ` set (drop (Suc i) xs)"
    by auto
  show "distinct (map f (take i xs @ drop (Suc i) xs))" using d .
  show "\<forall>y \<in> set (take i xs @ drop (Suc i) xs). f y \<noteq> f (xs ! i)"
    using n by (metis UnE imageI set_append)
qed

lemma assignOrderToBot_spawns:
  "\<exists>X. goroutines (assignOrderToBot now b oc) = goroutines oc @ X \<and>
       (\<forall>G. assignOrderToBot now b (oc\<lparr>goroutines := G\<rparr>) =
            (assignOrderToBot now b oc)\<lparr>goroutines := G @ X\<rparr>)"
proof (cases "Bot_Status (bot_heap oc ! b) = BotStatusIdle \<and> length (pendingOrders oc) > 0")
  case True
  then have "goroutines (assignOrderToBot now b oc) = goroutines oc @ [(b, now)] \<and>
       (\<forall>G. assignOrderToBot now b (oc\<lparr>goroutines := G\<rparr>) =
            (assignOrderToBot now b oc)\<lparr>goroutines := G @ [(b, now)]\<rparr>)"
    by (simp add: assignOrderToBot_def Let_def)
  then show ?thesis by blast
next
  case False
  then have "goroutines (assignOrderToBot now b oc) = goroutines oc @ [] \<and>
       (\<forall>G. assignOrderToBot now b (oc\<lparr>goroutines := G\<rparr>) =
            (assignOrderToBot now b oc)\<lparr>goroutines := G @ []\<rparr>)"
    by (auto simp: assignOrderToBot_def Let_def)
  then show ?thesis by blast
qed

lemma assignLoop_spawns:
  "\<exists>X. goroutines (assignLoop now bs oc) = goroutines oc @ X \<and>
       (\<forall>G. assignLoop now bs (oc\<lparr>goroutines := G\<rparr>) =
            (assignLoop now bs oc)\<lparr>goroutines := G @ X\<rparr>)"
proof (induction bs arbitrary: oc)
  case Nil
  have "goroutines (assignLoop now [] oc) = goroutines oc @ [] \<and>
       (\<forall>G. assignLoop now [] (oc\<lparr>goroutines := G\<rparr>) =
            (assignLoop now [] oc)\<lparr>goroutines := G @ []\<rparr>)"
    by simp
  then show ?case by blast
next
  case (Cons b bs)
  obtain X where X: "goroutines (assignOrderToBot now b oc) = goroutines oc @ X"
    "\<And>G. assignOrderToBot now b (oc\<lparr>goroutines := G\<rparr>) =
            (assignOrderToBot now b oc)\<lparr>goroutines := G @ X\<rparr>"
    using assignOrderToBot_spawns[of now b oc] by blast
  obtain Y where Y: "goroutines (assignLoop now bs (assignOrderToBot now b oc)) =
      goroutines (assignOrderToBot now b oc) @ Y"
    "\<And>G. assignLoop now bs ((assignOrderToBot now b oc)\<lparr>goroutines := G\<rparr>) =
            (assignLoop now bs (assignOrderToBot now b oc))\<lparr>goroutines := G @ Y\<rparr>"
    using Cons.IH[of "assignOrderToBot now b oc"] by blast
  have "goroutines (assignLoop now (b # bs) oc) = goroutines oc @ (X @ Y) \<and>
       (\<forall>G. assignLoop now (b # bs) (oc\<lparr>goroutines := G\<rparr>) =
            (assignLoop now (b # bs) oc)\<lparr>goroutines := G @ (X @ Y)\<rparr>)"
    using X Y by simp
  then show ?case by blast
qed

text \<open>Taking a goroutine out of the list before or after the pass is the same.\<close>

lemma assign_then_return:
  assumes "i < length (goroutines oc)"
  shows "(assignOrdersToBots now oc)\<lparr>goroutines :=
            take i (goroutines (assignOrdersToBots now oc)) @
            drop (i + 1) (goroutines (assignOrdersToBots now oc))\<rparr> =
         assignOrdersToBots now
           (oc\<lparr>goroutines := take i (goroutines oc) @ drop (i + 1) (goroutines oc)\<rparr>)"
proof -
  obtain X where X: "goroutines (assignLoop now (bots oc) oc) = goroutines oc @ X"
    "\<And>G. assignLoop now (bots oc) (oc\<lparr>goroutines := G\<rparr>) =
            (assignLoop now (bots oc) oc)\<lparr>goroutines := G @ X\<rparr>"
    using assignLoop_spawns[of now "bots oc" oc] by blast
  show ?thesis
    unfolding assignOrdersToBots_def using assms by (simp add: X)
qed

lemma returned_strong_inv:
  assumes s: "strong_inv oc" and i: "i < length (goroutines oc)"
  shows "strong_inv (oc\<lparr>goroutines := take i (goroutines oc) @ drop (i + 1) (goroutines oc)\<rparr>)"
proof -
  note sp = strong_inv_parts[OF s]
  define G where "G = take i (goroutines oc) @ drop (i + 1) (goroutines oc)"
  have sub: "set G \<subseteq> set (goroutines oc)"
    by (auto simp: G_def dest: in_set_takeD in_set_dropD)
  have d: "distinct (map fst G)"
    using distinct_remove_nth(1)[of fst "goroutines oc" i] sp(5) i
    by (simp add: goroutines_ok_iff G_def)
  have "queue_inv (oc\<lparr>goroutines := G\<rparr>)" using sp(1) sub by (rule queue_inv_goroutines)
  moreover have "exclusive (oc\<lparr>goroutines := G\<rparr>)"
    using sp(2) by (simp add: exclusive_def in_flight_def)
  moreover have "status_ok (oc\<lparr>goroutines := G\<rparr>)"
    using sp(3) by (simp add: status_ok_iff in_flight_def)
  moreover have "pool_ok (oc\<lparr>goroutines := G\<rparr>)" using sp(4) by (simp add: pool_ok_iff)
  moreover have "goroutines_ok (oc\<lparr>goroutines := G\<rparr>)"
    using sp(5) sub d by (auto simp: goroutines_ok_iff)
  ultimately show ?thesis unfolding G_def[symmetric] strong_inv_def by simp
qed

lemma received_strong_inv:
  assumes s: "strong_inv oc" and i: "i < length (goroutines oc)"
    and sc: "stopChan (bot_heap oc ! fst (goroutines oc ! i)) = v # buf"
  shows "strong_inv
     (oc\<lparr>bot_heap := (bot_heap oc)[fst (goroutines oc ! i) :=
                        (bot_heap oc ! fst (goroutines oc ! i))\<lparr>stopChan := buf\<rparr>],
         goroutines := take i (goroutines oc) @ drop (i + 1) (goroutines oc)\<rparr>)"
proof -
  note sp = strong_inv_parts[OF s]
  note q = queue_inv_parts[OF sp(1)]
  define b where "b = fst (goroutines oc ! i)"
  define G where "G = take i (goroutines oc) @ drop (i + 1) (goroutines oc)"
  define oc1 where "oc1 = oc\<lparr>bot_heap := (bot_heap oc)[b := (bot_heap oc ! b)\<lparr>stopChan := buf\<rparr>],
         goroutines := G\<rparr>"
  have sub: "set G \<subseteq> set (goroutines oc)"
    by (auto simp: G_def dest: in_set_takeD in_set_dropD)
  have dg: "distinct (map fst (goroutines oc))" using sp(5) by (simp add: goroutines_ok_iff)
  have d: "distinct (map fst G)"
    using distinct_remove_nth(1)[OF dg i] by (simp add: G_def)
  have "\<forall>y \<in> set (take i (goroutines oc) @ drop (Suc i) (goroutines oc)).
          fst y \<noteq> fst (goroutines oc ! i)"
    using dg i by (rule distinct_remove_nth(2))
  then have nb: "\<forall>g \<in> set G. b \<noteq> fst g"
    unfolding G_def b_def by (simp add: ball_Un) metis
  have ne: "\<forall>x \<in> set (bots oc). b \<noteq> x"
    using q(3) sc by (auto simp: pool_unsignalled_def list_all_iff b_def)
  have "queue_inv (oc\<lparr>bot_heap := (bot_heap oc)[b := (bot_heap oc ! b)\<lparr>stopChan := buf\<rparr>]\<rparr>)"
    using sp(1) sc unfolding b_def by (rule queue_inv_received)
  from queue_inv_goroutines[OF this, of G] sub
  have q1: "queue_inv oc1" by (simp add: oc1_def)
  have fl: "in_flight oc1 = in_flight oc"
    unfolding in_flight_def oc1_def using ne by (simp add: in_flight_frame)
  have ex1: "exclusive oc1" using sp(2) unfolding exclusive_def fl by (simp add: oc1_def)
  have st1: "status_ok oc1" using sp(3) unfolding status_ok_iff fl by (simp add: oc1_def)
  have po1: "pool_ok oc1" using sp(4) ne by (simp add: pool_ok_iff oc1_def)
  have go1: "goroutines_ok oc1"
    using sp(5) sub d nb by (auto simp: goroutines_ok_iff oc1_def)
  show ?thesis
    unfolding b_def[symmetric] G_def[symmetric] oc1_def[symmetric] strong_inv_def
    using q1 ex1 st1 po1 go1 by simp
qed

lemma completed_strong_inv:
  assumes s: "strong_inv oc" and i: "i < length (goroutines oc)"
    and sc: "stopChan (bot_heap oc ! fst (goroutines oc ! i)) = []"
    and po: "Bot_Order (bot_heap oc ! fst (goroutines oc ! i)) = Some p"
  shows "strong_inv
     (oc\<lparr>order_heap := (order_heap oc)[p := (order_heap oc ! p)\<lparr>Status := OrderStatusComplete,
                                                                 Completed := now\<rparr>],
         bot_heap := (bot_heap oc)[fst (goroutines oc ! i) :=
                        (bot_heap oc ! fst (goroutines oc ! i))\<lparr>Bot_Order := None,
                                                                   Bot_Status := BotStatusIdle\<rparr>],
         completedOrders := completedOrders oc @ [p],
         goroutines := take i (goroutines oc) @ drop (i + 1) (goroutines oc)\<rparr>)"
proof -
  note sp = strong_inv_parts[OF s]
  note q = queue_inv_parts[OF sp(1)]
  note ex = exclusive_parts[OF sp(2)]
  define b where "b = fst (goroutines oc ! i)"
  define G where "G = take i (goroutines oc) @ drop (i + 1) (goroutines oc)"
  define bv where "bv = (bot_heap oc ! b)\<lparr>Bot_Order := None, Bot_Status := BotStatusIdle\<rparr>"
  define oc1 where "oc1 = oc\<lparr>order_heap := (order_heap oc)[p := (order_heap oc ! p)\<lparr>Status := OrderStatusComplete,
                                                                 Completed := now\<rparr>],
         bot_heap := (bot_heap oc)[b := bv],
         completedOrders := completedOrders oc @ [p], goroutines := G\<rparr>"
  have gi: "goroutines oc ! i \<in> set (goroutines oc)" using i by simp
  have bin: "b \<in> set (bots oc)"
    using sp(5) gi sc unfolding goroutines_ok_iff b_def by blast
  have blt: "b < length (bot_heap oc)" using q(1) bin by (simp add: valid_ptrs_iff)
  have sub: "set G \<subseteq> set (goroutines oc)"
    by (auto simp: G_def dest: in_set_takeD in_set_dropD)
  have dg: "distinct (map fst (goroutines oc))" using sp(5) by (simp add: goroutines_ok_iff)
  have d: "distinct (map fst G)"
    using distinct_remove_nth(1)[OF dg i] by (simp add: G_def)
  have "\<forall>y \<in> set (take i (goroutines oc) @ drop (Suc i) (goroutines oc)).
          fst y \<noteq> fst (goroutines oc ! i)"
    using dg i by (rule distinct_remove_nth(2))
  then have nb: "\<forall>g \<in> set G. b \<noteq> fst g"
    unfolding G_def b_def by (simp add: ball_Un) metis
  have "queue_inv (oc\<lparr>order_heap := (order_heap oc)[p := (order_heap oc ! p)\<lparr>Status := OrderStatusComplete,
                                                                 Completed := now\<rparr>],
         bot_heap := (bot_heap oc)[b := (bot_heap oc ! b)\<lparr>Bot_Order := None,
                                                          Bot_Status := BotStatusIdle\<rparr>],
         completedOrders := completedOrders oc @ [p]\<rparr>)"
    using sp(1) by (rule queue_inv_completed)
  from queue_inv_goroutines[OF this, of G] sub
  have q1: "queue_inv oc1" by (simp add: oc1_def bv_def)
  have fl: "mset (in_flight oc) = mset (in_flight oc1) + {#p#}"
    using in_flight_update[OF q(5) bin blt, of bv] po blt
    by (simp add: in_flight_def oc1_def slot_of_def bv_def b_def)
  have ex1: "exclusive oc1"
    using ex(1,2) fl by (simp add: exclusive_def oc1_def ac_simps)
  have pin: "p \<in> set (in_flight oc)" using arg_cong[OF fl, of set_mset] by auto
  have plt: "p < length (order_heap oc)" using ex(9) pin by simp
  have pnf: "p \<notin> set (in_flight oc1)"
  proof
    assume "p \<in> set (in_flight oc1)"
    then have "count (mset (in_flight oc)) p \<ge> 2" unfolding fl by (simp add: count_greater_eq_one_iff Suc_le_eq)
    moreover have "count (mset (in_flight oc)) p \<le> 1"
      using ex(4) by (simp add: distinct_count_atmost_1)
    ultimately show False by simp
  qed
  have sub_fl: "set (in_flight oc1) \<subseteq> set (in_flight oc)"
    using arg_cong[OF fl, of set_mset] by auto
  have ne: "\<forall>x \<in> set (pendingOrders oc). p \<noteq> x" "\<forall>x \<in> set (in_flight oc1). p \<noteq> x"
    "\<forall>x \<in> set (completedOrders oc). p \<noteq> x"
    using ex(6,8) pin pnf by auto
  have fl1: "in_flight oc1 = concat (map (slot_of ((bot_heap oc)[b := bv])) (bots oc))"
    by (simp add: in_flight_def oc1_def)
  have st1: "status_ok oc1"
    unfolding status_ok_iff
  proof (intro conjI ballI)
    fix x assume "x \<in> set (pendingOrders oc1)"
    then show "Status (order_heap oc1 ! x) = OrderStatusPending"
      using sp(3) ne(1) by (simp add: status_ok_iff oc1_def)
  next
    fix x assume x: "x \<in> set (in_flight oc1)"
    then have "x \<in> set (in_flight oc)" "p \<noteq> x" using sub_fl ne(2) by auto
    then show "Status (order_heap oc1 ! x) = OrderStatusProcessing"
      using sp(3) by (simp add: status_ok_iff oc1_def)
  next
    fix x assume "x \<in> set (completedOrders oc1)"
    then have "x = p \<or> x \<in> set (completedOrders oc)" by (auto simp: oc1_def)
    then show "Status (order_heap oc1 ! x) = OrderStatusComplete"
      using sp(3) ne(3) plt by (auto simp: status_ok_iff oc1_def)
  qed
  have po1: "pool_ok oc1"
    unfolding pool_ok_iff
  proof
    fix x assume "x \<in> set (bots oc1)"
    then have x: "x \<in> set (bots oc)" by (simp add: oc1_def)
    show "(Bot_Status (bot_heap oc1 ! x) = BotStatusProcessing) = (Bot_Order (bot_heap oc1 ! x) \<noteq> None)"
    proof (cases "x = b")
      case True
      then show ?thesis using blt by (simp add: oc1_def bv_def)
    next
      case False
      then show ?thesis using sp(4) x by (simp add: oc1_def pool_ok_iff)
    qed
  qed
  have go1: "goroutines_ok oc1"
    using sp(5) sub d nb by (auto simp: goroutines_ok_iff oc1_def bv_def)
  show ?thesis
    unfolding b_def[symmetric] G_def[symmetric] bv_def[symmetric] oc1_def[symmetric] strong_inv_def
    using q1 ex1 st1 po1 go1 by simp
qed

lemma goroutine_step_strong_inv:
  assumes s: "strong_inv oc" and nr: "\<not> race (EvGoroutine now i c) oc"
    and st: "goroutine_step now i c oc = Some oc'"
  shows "strong_inv oc'"
proof -
  from st obtain r oc1 where i: "i < length (goroutines oc)"
    and it: "processOrder_iteration now c (goroutines oc ! i) oc = Some (r, oc1)"
    and oc': "oc' = (if r then oc1\<lparr>goroutines := take i (goroutines oc1) @ drop (i + 1) (goroutines oc1)\<rparr>
                     else oc1)"
    by (auto simp: goroutine_step_def split: if_splits option.splits)
  from processOrder_iteration_cases[OF it] show ?thesis
  proof (elim disjE exE conjE)
    assume "\<not> r" "oc1 = oc"
    then show ?thesis using s oc' by simp
  next
    assume "r" "oc1 = oc"
    then show ?thesis using returned_strong_inv[OF s i] oc' by simp
  next
    fix v buf
    assume r: "r" and sc: "stopChan (bot_heap oc ! fst (goroutines oc ! i)) = v # buf"
      and oc1: "oc1 = oc\<lparr>bot_heap := (bot_heap oc)[fst (goroutines oc ! i) :=
                        (bot_heap oc ! fst (goroutines oc ! i))\<lparr>stopChan := buf\<rparr>]\<rparr>"
    show ?thesis using received_strong_inv[OF s i sc] r by (simp add: oc' oc1)
  next
    fix p
    assume r: "r" and c: "c = recv_ticker" and el: "duration \<le> now - snd (goroutines oc ! i)"
      and po: "Bot_Order (bot_heap oc ! fst (goroutines oc ! i)) = Some p"
      and oc1: "oc1 = assignOrdersToBots now
          (oc\<lparr>order_heap := (order_heap oc)[p := (order_heap oc ! p)\<lparr>Status := OrderStatusComplete,
                                                                     Completed := now\<rparr>],
              bot_heap := (bot_heap oc)[fst (goroutines oc ! i) :=
                 (bot_heap oc ! fst (goroutines oc ! i))\<lparr>Bot_Order := None,
                                                            Bot_Status := BotStatusIdle\<rparr>],
              completedOrders := completedOrders oc @ [p]\<rparr>)"
    define oc2 where "oc2 = oc\<lparr>order_heap := (order_heap oc)[p := (order_heap oc ! p)\<lparr>Status := OrderStatusComplete,
                                                                     Completed := now\<rparr>],
              bot_heap := (bot_heap oc)[fst (goroutines oc ! i) :=
                 (bot_heap oc ! fst (goroutines oc ! i))\<lparr>Bot_Order := None,
                                                            Bot_Status := BotStatusIdle\<rparr>],
              completedOrders := completedOrders oc @ [p]\<rparr>"
    have sc: "stopChan (bot_heap oc ! fst (goroutines oc ! i)) = []"
      using nr c i el by (simp add: race_def)
    have i2: "i < length (goroutines oc2)" using i by (simp add: oc2_def)
    have "oc' = assignOrdersToBots now
           (oc2\<lparr>goroutines := take i (goroutines oc2) @ drop (i + 1) (goroutines oc2)\<rparr>)"
      using assign_then_return[OF i2, of now] r by (simp add: oc' oc1 oc2_def[symmetric])
    moreover have "strong_inv (oc2\<lparr>goroutines := take i (goroutines oc2) @ drop (i + 1) (goroutines oc2)\<rparr>)"
      using completed_strong_inv[OF s i sc po, of now] by (simp add: oc2_def)
    ultimately show ?thesis using assignOrdersToBots_strong_inv by simp
  qed
qed

lemma step_strong_inv:
  assumes s: "strong_inv oc" and nr: "\<not> race e oc" and st: "step e oc = Some oc'"
  shows "strong_inv oc'"
proof (cases e)
  case (EvCreateNormalOrder now)
  then show ?thesis
    using st assignOrdersToBots_strong_inv[OF newNormalOrder_strong_inv[OF s]]
    by (auto simp: CreateNormalOrder_split)
next
  case (EvCreateVIPOrder now)
  then show ?thesis
    using st assignOrdersToBots_strong_inv[OF newVIPOrder_strong_inv[OF s]]
    by (auto simp: CreateVIPOrder_split)
next
  case (EvAddBot now)
  then show ?thesis
    using st assignOrdersToBots_strong_inv[OF newBot_strong_inv[OF s]]
    by (auto simp: AddBot_split)
next
  case (EvRemoveBot now)
  then show ?thesis using st RemoveBot_strong_inv[OF s, of now oc'] by simp
next
  case (EvWait now)
  then show ?thesis using st assignOrdersToBots_strong_inv[OF s] by (auto simp: Wait_def)
next
  case (EvGoroutine now k c)
  then show ?thesis using st nr goroutine_step_strong_inv[OF s, of now k c oc'] by simp
qed

lemma strong_inv_init: "strong_inv NewOrderController"
  using queue_inv_init
  by (simp add: strong_inv_def exclusive_def status_ok_def pool_ok_def goroutines_ok_def
      in_flight_def NewOrderController_def)

lemma run_no_race_run: "run_no_race evs oc = Some oc' \<Longrightarrow> run evs oc = Some oc'"
  by (induction evs arbitrary: oc) (auto split: if_splits option.splits)

lemma run_no_race_strong_inv:
  "strong_inv oc \<Longrightarrow> run_no_race evs oc = Some oc' \<Longrightarrow> strong_inv oc'"
proof (induction evs arbitrary: oc)
  case Nil
  then show ?case by simp
next
  case (Cons e es)
  then obtain oc1 where 1: "\<not> race e oc" "step e oc = Some oc1" "run_no_race es oc1 = Some oc'"
    by (auto split: if_splits option.splits)
  from Cons.IH[OF step_strong_inv[OF Cons.prems(1) 1(1,2)] 1(3)] show ?case .
qed

text \<open>
  Without the race of the tick against the cancellation signal the three collections
  partition the orders ever created, the status of an order names its collection, and a
  pool bot is Processing exactly when it holds an order.
\<close>

lemma collections_partition_orders:
  assumes "run_no_race evs NewOrderController = Some oc"
  shows "orders oc = [0..<length (order_heap oc)]"
    "mset (pendingOrders oc @ in_flight oc @ completedOrders oc) = mset (orders oc)"
    "distinct (pendingOrders oc @ in_flight oc @ completedOrders oc)"
    "status_ok oc" "pool_ok oc"
proof -
  have s: "strong_inv oc" using strong_inv_init assms by (rule run_no_race_strong_inv)
  note sp = strong_inv_parts[OF s]
  show "orders oc = [0..<length (order_heap oc)]"
    "mset (pendingOrders oc @ in_flight oc @ completedOrders oc) = mset (orders oc)"
    using sp(2) by (simp_all add: exclusive_def)
  show "distinct (pendingOrders oc @ in_flight oc @ completedOrders oc)"
    using sp(2) by (rule exclusive_distinct)
  show "status_ok oc" "pool_ok oc" using sp by simp_all
qed

text \<open>The definitions a concrete run unfolds to.\<close>

lemmas run_defs = NewOrderController_def CreateNormalOrder_def CreateVIPOrder_def AddBot_def
  RemoveBot_def removeBotFromList_def stopBotProcessing_def chan_send_def
  handleIdleBotRemoval_def handleProcessingBotRemoval_def insertOrderToPending_def
  insertVIPOrder_def assignOrdersToBots_def assignOrderToBot_def Wait_def
  goroutine_step_def processOrder_iteration_def completeOrderProcessing_def
  finalizeOrderCompletion_def duration_def atomic_AddInt64_def wrap64_def Let_def

text \<open>
  A run without the race in which a bot is removed while it works: its goroutine takes the
  cancellation signal, and the other bot completes both orders, the VIP order first.
\<close>

lemma run_no_race_example:
  "\<exists>oc. run_no_race [EvCreateNormalOrder 0, EvCreateVIPOrder 1, EvAddBot 2, EvAddBot 3,
                       EvRemoveBot 4, EvGoroutine 5 1 recv_stopChan,
                       EvGoroutine 10000000002 0 recv_ticker,
                       EvGoroutine 20000000002 0 recv_ticker] NewOrderController = Some oc \<and>
        pendingOrders oc = [] \<and> completedOrders oc = [1, 0] \<and> in_flight oc = []"
  by (simp add: run_defs race_def in_flight_def slot_of_def)

section \<open>C1: the queue is VIP entries, then Normal entries, each class a FIFO\<close>

text \<open>
  Claim C1. In the state after any run of the controller (creations, bot additions and
  removals with their reinsertions, assignment passes, completions, in any order and with
  any clock values) the pending queue is its VIP entries followed by its Normal entries.
  Every further step keeps it so and treats each class as a FIFO: the entries of a class
  after the step are the entries before it in the same order, with at most one entry
  added at the back and entries removed from the front only.
\<close>

theorem pending_queue_partitioned_fifo:
  assumes "run evs NewOrderController = Some oc"
  shows "partitioned oc \<and>
     (\<forall>e oc'. step e oc = Some oc' \<longrightarrow> partitioned oc' \<and> fifo_step oc oc')"
proof -
  have q: "queue_inv oc" using assms by (rule reachable_queue_inv)
  have "partitioned oc' \<and> fifo_step oc oc'" if "step e oc = Some oc'" for e oc'
    using step_queue_inv[OF q that] step_fifo[OF q that] by (simp add: queue_inv_def)
  then show ?thesis using q by (simp add: queue_inv_def)
qed

theorem pending_queue_partitioned_fifo_witness:
  "map_option pending_view
     (run [EvCreateNormalOrder 0, EvCreateVIPOrder 1, EvAddBot 2, EvCreateVIPOrder 3]
        NewOrderController) =
     Some [(1003, OrderTypeVIP), (1001, OrderTypeNormal)] \<and>
   map_option partitioned
     (run [EvCreateNormalOrder 0, EvCreateVIPOrder 1, EvAddBot 2, EvCreateVIPOrder 3]
        NewOrderController) = Some True \<and>
   map_option pending_view
     (run [EvCreateNormalOrder 0, EvCreateVIPOrder 1, EvAddBot 2, EvCreateVIPOrder 3,
           EvRemoveBot 4] NewOrderController) =
     Some [(1003, OrderTypeVIP), (1002, OrderTypeVIP), (1001, OrderTypeNormal)] \<and>
   map_option partitioned
     (run [EvCreateNormalOrder 0, EvCreateVIPOrder 1, EvAddBot 2, EvCreateVIPOrder 3,
           EvRemoveBot 4] NewOrderController) = Some True"
  using pending_queue_partitioned_fifo
    [of "[EvCreateNormalOrder 0, EvCreateVIPOrder 1, EvAddBot 2, EvCreateVIPOrder 3]"
        "the (run [EvCreateNormalOrder 0, EvCreateVIPOrder 1, EvAddBot 2, EvCreateVIPOrder 3]
                NewOrderController)"]
  by (simp add: run_defs pending_view_def partitioned_def class_queue_def)

section \<open>C4: RemoveBot removes the newest bot\<close>

text \<open>
  Claim C4. In the state after any run, \<open>RemoveBot\<close> returns, and the pool it leaves is the
  pool without its last entry; with an empty pool the state is unchanged (this holds in
  every state, reached or not, so the queue, the pool and the completed list stay as they
  are). As long as the bot counter has not wrapped around (fewer than \<open>2^63 - 1\<close> events),
  the bot removed has an id greater than the id of every bot that stays. The pool is a
  stack: \<open>RemoveBot\<close> right after \<open>AddBot\<close> gives back the pool from before.
\<close>

theorem RemoveBot_removes_newest:
  assumes "run evs NewOrderController = Some oc"
  shows
    "(\<exists>oc'. RemoveBot now oc = Some oc' \<and> bots oc' = butlast (bots oc) \<and>
        (bots oc = [] \<longrightarrow> oc' = oc) \<and>
        (int (length evs) + 1 < 2 ^ 63 \<longrightarrow>
           list_all (\<lambda>b. Bot_ID (bot_heap oc ! b) < Bot_ID (bot_heap oc ! last (bots oc)))
             (bots oc'))) \<and>
     (\<exists>oc''. RemoveBot now (AddBot now' oc) = Some oc'' \<and> bots oc'' = bots oc) \<and>
     (\<forall>s. bots s = [] \<longrightarrow> RemoveBot now s = Some s)"
proof -
  have q: "queue_inv oc" using assms by (rule reachable_queue_inv)
  obtain oc' where rm: "RemoveBot now oc = Some oc'" "bots oc' = butlast (bots oc)"
    using RemoveBot_queue_inv[OF q, of now] by blast
  have e: "oc' = oc" if "bots oc = []" using that rm(1) by (simp add: RemoveBot_empty)
  have hi: "list_all (\<lambda>b. Bot_ID (bot_heap oc ! b) < Bot_ID (bot_heap oc ! last (bots oc))) (bots oc')"
    if bound: "int (length evs) + 1 < 2 ^ 63"
  proof (cases "bots oc" rule: rev_cases)
    case Nil
    then show ?thesis using rm(2) by simp
  next
    case (snoc bs b)
    have d: "bot_ids_ok oc" using reachable_id_inv[OF assms bound] by (simp add: id_inv_def)
    have v: "\<forall>x \<in> set (bots oc). x < length (bot_heap oc)"
      using queue_inv_parts(1)[OF q] by (simp add: valid_ptrs_iff)
    have lt: "\<forall>x \<in> set bs. x < b"
      using queue_inv_parts(4)[OF q] snoc by (simp add: sorted_wrt_append)
    have "Bot_ID (bot_heap oc ! x) < Bot_ID (bot_heap oc ! b)" if "x \<in> set bs" for x
      using bot_id_eq[OF d, of x] bot_id_eq[OF d, of b] v lt that snoc by auto
    then show ?thesis using rm(2) snoc by (simp add: list_all_iff)
  qed
  have "run (evs @ [EvAddBot now']) NewOrderController = Some (AddBot now' oc)"
    using assms by (simp add: run_snoc)
  then have "queue_inv (AddBot now' oc)" by (rule reachable_queue_inv)
  then obtain oc'' where "RemoveBot now (AddBot now' oc) = Some oc''"
    "bots oc'' = butlast (bots (AddBot now' oc))"
    using RemoveBot_queue_inv by blast
  moreover have "bots (AddBot now' oc) = bots oc @ [length (bot_heap oc)]"
    by (simp add: AddBot_split assignOrdersToBots_def newBot_def)
  ultimately have lifo: "\<exists>oc''. RemoveBot now (AddBot now' oc) = Some oc'' \<and> bots oc'' = bots oc"
    by simp
  show ?thesis using rm e hi lifo RemoveBot_empty by blast
qed

theorem RemoveBot_removes_newest_witness:
  "map_option bots (run [EvAddBot 0, EvAddBot 1, EvCreateNormalOrder 2] NewOrderController) =
     Some [0, 1] \<and>
   int (length [EvAddBot 0, EvAddBot 1, EvCreateNormalOrder 2]) + 1 < 2 ^ 63 \<and>
   map_option (\<lambda>oc. map (\<lambda>b. Bot_ID (bot_heap oc ! b)) (bots oc))
     (run [EvAddBot 0, EvAddBot 1, EvCreateNormalOrder 2] NewOrderController) = Some [1, 2] \<and>
   map_option (\<lambda>oc. map (\<lambda>b. Bot_ID (bot_heap oc ! b)) (bots oc))
     (run [EvAddBot 0, EvAddBot 1, EvCreateNormalOrder 2, EvRemoveBot 3] NewOrderController) =
     Some [1] \<and>
   bots NewOrderController = [] \<and>
   RemoveBot 3 NewOrderController = Some NewOrderController"
  using RemoveBot_removes_newest
    [of "[EvAddBot 0, EvAddBot 1, EvCreateNormalOrder 2]"
        "the (run [EvAddBot 0, EvAddBot 1, EvCreateNormalOrder 2] NewOrderController)" 3 4]
  by (simp add: run_defs)

section \<open>C10: the BotID field of an order\<close>

text \<open>
  Claim C10, as the code has it. In the state after any run in which the bot counter has
  not wrapped around (fewer than \<open>2^63 - 1\<close> events), the bots ever created carry the ids
  \<open>1, 2, 3, ...\<close> in the order of their creation, so no bot has the id \<open>0\<close>. An order
  that is Pending (just created, or returned by the removal of its bot) has
  \<open>BotID = 0\<close>, and an order that is Processing has a \<open>BotID\<close> other than \<open>0\<close>.
  Nothing is said of a Complete order.
\<close>

theorem owner_field:
  assumes "run evs NewOrderController = Some oc" "int (length evs) + 1 < 2 ^ 63"
  shows
    "nextBotID oc = int (length (bot_heap oc)) + 1 \<and>
     (\<forall>b < length (bot_heap oc). Bot_ID (bot_heap oc ! b) = int b + 1) \<and>
     (\<forall>p < length (order_heap oc).
        (Status (order_heap oc ! p) = OrderStatusPending \<longrightarrow> BotID (order_heap oc ! p) = 0) \<and>
        (Status (order_heap oc ! p) = OrderStatusProcessing \<longrightarrow> BotID (order_heap oc ! p) \<noteq> 0))"
proof -
  have d: "id_inv (length evs) oc" using assms by (rule reachable_id_inv)
  note p = id_inv_parts[OF d]
  have 1: "nextBotID oc = int (length (bot_heap oc)) + 1" using p(1) by (simp add: bot_ids_ok_def)
  have 2: "\<forall>b < length (bot_heap oc). Bot_ID (bot_heap oc ! b) = int b + 1"
    using bot_id_eq[OF p(1)] by blast
  have 3: "\<forall>p < length (order_heap oc).
        (Status (order_heap oc ! p) = OrderStatusPending \<longrightarrow> BotID (order_heap oc ! p) = 0) \<and>
        (Status (order_heap oc ! p) = OrderStatusProcessing \<longrightarrow> BotID (order_heap oc ! p) \<noteq> 0)"
    using p(2) by (simp add: owner_ok_def list_all_length)
  show ?thesis using 1 2 3 by blast
qed

theorem owner_field_witness:
  "int (length [EvCreateNormalOrder 0, EvCreateNormalOrder 1, EvAddBot 2]) + 1 < 2 ^ 63 \<and>
   map_option (\<lambda>oc. map (\<lambda>ov. (ID ov, Status ov, BotID ov)) (order_heap oc))
     (run [EvCreateNormalOrder 0, EvCreateNormalOrder 1, EvAddBot 2] NewOrderController) =
     Some [(1001, OrderStatusProcessing, 1), (1002, OrderStatusPending, 0)] \<and>
   map_option (\<lambda>oc. (map Bot_ID (bot_heap oc), nextBotID oc))
     (run [EvCreateNormalOrder 0, EvCreateNormalOrder 1, EvAddBot 2] NewOrderController) =
     Some ([1], 2)"
  using owner_field
    [of "[EvCreateNormalOrder 0, EvCreateNormalOrder 1, EvAddBot 2]"
        "the (run [EvCreateNormalOrder 0, EvCreateNormalOrder 1, EvAddBot 2] NewOrderController)"]
  by (simp add: run_defs)

text \<open>
  C10 as stated says that \<open>BotID\<close> is non-zero exactly while the order is Processing.
  After one order was created, taken by bot 1 and completed, it is Complete, not
  Processing, and its \<open>BotID\<close> is \<open>1\<close>, not \<open>0\<close>.
\<close>

theorem owner_kept_after_completion:
  "map_option (\<lambda>oc. map (\<lambda>ov. (ID ov, Status ov, BotID ov)) (order_heap oc))
     (run [EvCreateNormalOrder 0, EvAddBot 1, EvGoroutine 10000000001 0 recv_ticker]
        NewOrderController) =
     Some [(1001, OrderStatusComplete, 1)]"
  by (simp add: run_defs)

section \<open>C2: one order in two collections\<close>

text \<open>
  Claim C2 says that every order is in exactly one of the pending queue, a pool bot's
  slot and the completed list. The run below breaks it. An order is created and taken by
  bot 1; the bot is removed once the processing time has passed, which raises the
  cancellation signal and puts the order back into the queue, but leaves \<open>bot.Order\<close> set;
  the goroutine of the removed bot then takes the tick that was ready with the signal,
  and \<open>completeOrderProcessing\<close> finds \<open>bot.Order\<close> set and completes the order. The order
  1001 is now in the queue and in the completed list. A bot added next takes it from the
  queue and completes it again: the completed list holds the id 1001 twice.
\<close>

theorem stale_completion_duplicates_order:
  "map_option (\<lambda>oc. stopChan (bot_heap oc ! 0))
     (run [EvCreateNormalOrder 0, EvAddBot 1, EvRemoveBot 10000000001] NewOrderController) =
     Some [True] \<and>
   map_option (race (EvGoroutine 10000000001 0 recv_ticker))
     (run [EvCreateNormalOrder 0, EvAddBot 1, EvRemoveBot 10000000001] NewOrderController) =
     Some True \<and>
   map_option (\<lambda>oc. (orders oc, pendingOrders oc, map (\<lambda>b. Bot_Order (bot_heap oc ! b)) (bots oc),
                      completedOrders oc))
     (run [EvCreateNormalOrder 0, EvAddBot 1, EvRemoveBot 10000000001,
           EvGoroutine 10000000001 0 recv_ticker] NewOrderController) =
     Some ([0], [0], [], [0]) \<and>
   map_option (\<lambda>oc. (orders oc, pendingOrders oc, map (\<lambda>b. Bot_Order (bot_heap oc ! b)) (bots oc),
                      completedOrders oc))
     (run [EvCreateNormalOrder 0, EvAddBot 1, EvRemoveBot 10000000001,
           EvGoroutine 10000000001 0 recv_ticker, EvAddBot 10000000002] NewOrderController) =
     Some ([0], [], [Some 0], [0]) \<and>
   map_option (\<lambda>oc. (orders oc, pendingOrders oc, map (\<lambda>b. Bot_Order (bot_heap oc ! b)) (bots oc),
                      map (\<lambda>p. ID (order_heap oc ! p)) (completedOrders oc)))
     (run [EvCreateNormalOrder 0, EvAddBot 1, EvRemoveBot 10000000001,
           EvGoroutine 10000000001 0 recv_ticker, EvAddBot 10000000002,
           EvGoroutine 20000000002 0 recv_ticker] NewOrderController) =
     Some ([0], [], [None], [1001, 1001])"
  by (simp add: run_defs race_def)

section \<open>C9: the tick against the cancellation signal\<close>

text \<open>
  Claim C9 says that cancellation wins when the processing time ends at the instant the
  signal is raised. In the state right after \<open>RemoveBot\<close>, with the signal in the channel
  of the removed bot and the processing time over, the goroutine can take either case of
  its \<open>select\<close>: receiving the signal leaves the order Pending in the queue, while taking
  the tick marks the same order Complete and appends it to the completed list.
\<close>

theorem cancellation_does_not_win:
  "map_option (\<lambda>oc. (bots oc, stopChan (bot_heap oc ! 0), goroutines oc,
                      Status (order_heap oc ! 0), pendingOrders oc, completedOrders oc))
     (run [EvCreateNormalOrder 0, EvAddBot 1, EvRemoveBot 10000000001] NewOrderController) =
     Some ([], [True], [(0, 1)], OrderStatusPending, [0], []) \<and>
   duration \<le> 10000000001 - 1 \<and>
   map_option (\<lambda>oc. (Status (order_heap oc ! 0), pendingOrders oc, completedOrders oc))
     (run [EvCreateNormalOrder 0, EvAddBot 1, EvRemoveBot 10000000001,
           EvGoroutine 10000000001 0 recv_stopChan] NewOrderController) =
     Some (OrderStatusPending, [0], []) \<and>
   map_option (\<lambda>oc. (Status (order_heap oc ! 0), pendingOrders oc, completedOrders oc))
     (run [EvCreateNormalOrder 0, EvAddBot 1, EvRemoveBot 10000000001,
           EvGoroutine 10000000001 0 recv_ticker] NewOrderController) =
     Some (OrderStatusComplete, [0], [0])"
  by (simp add: run_defs)

end
